theory Spec2Isabelle
  imports Main "HOL-Library.Multiset"
begin

section \<open>Data model\<close>

text \<open>
  The module \<^verbatim>\<open>task_sorting.py\<close> orders a list of \<^verbatim>\<open>Task\<close> objects with a
  priority-weighted variant of Kahn's algorithm and then writes a start and a finish time
  into every ordered object, walking the order backwards from the largest deadline.

  The status of a task is one of the six strings that the constructor's docstring lists;
  each string is a constructor here, in the docstring's order.
\<close>

datatype task_status = ToDo | InProgress | Paused | Cancelled | Done | Deleted

text \<open>
  The fields of class \<^verbatim>\<open>Task\<close>. The field \<^verbatim>\<open>id\<close> is called \<open>task_id\<close>. Deadline,
  duration, priority and the coefficient \<^verbatim>\<open>alpha\<close> are Python integers, as in the module's
  own example data. The two time fields are \<^verbatim>\<open>None\<close> after construction.
\<close>

record Task =
  task_id :: nat
  deadline :: int
  duration :: int
  priority :: int
  status :: task_status
  dependencies :: "nat list"
  start_time :: "int option"
  finish_time :: "int option"

text \<open>
  Tasks are objects that the scheduler mutates in place, and the lists that the functions
  take and return hold references to them. A store maps every reference to the object it
  points to; a task list is a list of references.
\<close>

type_synonym ref = nat
type_synonym store = "ref \<Rightarrow> Task"

text \<open>
  The only exception the module raises itself is the one for a dependency cycle. A
  subscript on a dictionary raises \<^verbatim>\<open>KeyError\<close> when the key is absent.
\<close>

datatype error = CycleError | KeyError

section \<open>Ordering: \<^verbatim>\<open>topological_sort_with_priority\<close>\<close>

text \<open>A \<^verbatim>\<open>for\<close> loop whose body may raise: the first error ends the loop.\<close>

fun for_each :: "('a \<Rightarrow> 's \<Rightarrow> error + 's) \<Rightarrow> 'a list \<Rightarrow> 's \<Rightarrow> error + 's" where
  "for_each body [] s = Inr s"
| "for_each body (x # xs) s =
     (case body x s of Inl e \<Rightarrow> Inl e | Inr s' \<Rightarrow> for_each body xs s')"

text \<open>The three dictionary comprehensions: a later task with the same id overwrites.\<close>

definition task_map_of :: "store \<Rightarrow> ref list \<Rightarrow> (nat \<rightharpoonup> ref)" where
  "task_map_of h tasks = fold (\<lambda>t m. m(task_id (h t) \<mapsto> t)) tasks Map.empty"

definition in_degree_init :: "store \<Rightarrow> ref list \<Rightarrow> (nat \<rightharpoonup> int)" where
  "in_degree_init h tasks = fold (\<lambda>t m. m(task_id (h t) \<mapsto> 0)) tasks Map.empty"

definition graph_init :: "store \<Rightarrow> ref list \<Rightarrow> (nat \<rightharpoonup> nat list)" where
  "graph_init h tasks = fold (\<lambda>t m. m(task_id (h t) \<mapsto> [])) tasks Map.empty"

text \<open>
  The body of the inner loop of the graph construction, for the task with id \<open>tid\<close> and
  one of its dependency ids: a dependency that is no key of \<^verbatim>\<open>task_map\<close> is skipped.
\<close>

definition add_dep ::
  "(nat \<rightharpoonup> ref) \<Rightarrow> nat \<Rightarrow> nat \<Rightarrow> (nat \<rightharpoonup> nat list) \<times> (nat \<rightharpoonup> int) \<Rightarrow>
   error + (nat \<rightharpoonup> nat list) \<times> (nat \<rightharpoonup> int)" where
  "add_dep task_map tid dep_id gi =
     (case gi of (graph, in_degree) \<Rightarrow>
        if dep_id \<in> dom task_map then
          (case graph dep_id of
             None \<Rightarrow> Inl KeyError
           | Some succs \<Rightarrow>
               (case in_degree tid of
                  None \<Rightarrow> Inl KeyError
                | Some n \<Rightarrow> Inr (graph(dep_id \<mapsto> succs @ [tid]), in_degree(tid \<mapsto> n + 1))))
        else Inr (graph, in_degree))"

definition add_task_deps ::
  "store \<Rightarrow> (nat \<rightharpoonup> ref) \<Rightarrow> ref \<Rightarrow> (nat \<rightharpoonup> nat list) \<times> (nat \<rightharpoonup> int) \<Rightarrow>
   error + (nat \<rightharpoonup> nat list) \<times> (nat \<rightharpoonup> int)" where
  "add_task_deps h task_map t =
     for_each (add_dep task_map (task_id (h t))) (dependencies (h t))"

definition build_graph ::
  "store \<Rightarrow> ref list \<Rightarrow> error + (nat \<rightharpoonup> nat list) \<times> (nat \<rightharpoonup> int)" where
  "build_graph h tasks =
     for_each (add_task_deps h (task_map_of h tasks)) tasks
       (graph_init h tasks, in_degree_init h tasks)"

definition effective_deadline :: "int \<Rightarrow> Task \<Rightarrow> int" where
  "effective_deadline alpha task = deadline task - alpha * priority task"

text \<open>
  The comprehension that collects the tasks whose in-degree is zero, in input order.
\<close>

fun ready_tasks :: "store \<Rightarrow> (nat \<rightharpoonup> int) \<Rightarrow> ref list \<Rightarrow> error + ref list" where
  "ready_tasks h in_degree [] = Inr []"
| "ready_tasks h in_degree (t # ts) =
     (case in_degree (task_id (h t)) of
        None \<Rightarrow> Inl KeyError
      | Some n \<Rightarrow>
          (case ready_tasks h in_degree ts of
             Inl e \<Rightarrow> Inl e
           | Inr rs \<Rightarrow> Inr (if n = 0 then t # rs else rs)))"

text \<open>The variables that the main loop changes.\<close>

record kahn_state =
  zero_in_degree :: "ref list"
  in_degree :: "nat \<rightharpoonup> int"
  sorted_list :: "ref list"

text \<open>
  The body of the loop over the successors of the task just emitted: the successor's
  in-degree drops by one, and the successor joins the end of the pool when it reaches zero.
\<close>

definition release :: "(nat \<rightharpoonup> ref) \<Rightarrow> nat \<Rightarrow> kahn_state \<Rightarrow> error + kahn_state" where
  "release task_map nbr_id s =
     (case in_degree s nbr_id of
        None \<Rightarrow> Inl KeyError
      | Some n \<Rightarrow>
          if n - 1 = 0 then
            (case task_map nbr_id of
               None \<Rightarrow> Inl KeyError
             | Some t \<Rightarrow>
                 Inr (s\<lparr>in_degree := (in_degree s)(nbr_id \<mapsto> n - 1),
                        zero_in_degree := zero_in_degree s @ [t]\<rparr>))
          else Inr (s\<lparr>in_degree := (in_degree s)(nbr_id \<mapsto> n - 1)\<rparr>))"

text \<open>
  One iteration of the main loop, entered with a non-empty pool: pop the head, append it
  to the output, release its successors, and sort the pool again. Python's \<^verbatim>\<open>list.sort\<close>
  is stable, and so is \<^const>\<open>sort_key\<close>.
\<close>

definition loop_body ::
  "store \<Rightarrow> int \<Rightarrow> (nat \<rightharpoonup> ref) \<Rightarrow> (nat \<rightharpoonup> nat list) \<Rightarrow> kahn_state \<Rightarrow> error + kahn_state" where
  "loop_body h alpha task_map graph s =
     (case zero_in_degree s of
        [] \<Rightarrow> Inr s
      | current # rest \<Rightarrow>
          (case graph (task_id (h current)) of
             None \<Rightarrow> Inl KeyError
           | Some succs \<Rightarrow>
               (case for_each (release task_map) succs
                       (s\<lparr>zero_in_degree := rest, sorted_list := sorted_list s @ [current]\<rparr>) of
                  Inl e \<Rightarrow> Inl e
                | Inr s' \<Rightarrow>
                    Inr (s'\<lparr>zero_in_degree :=
                              sort_key (\<lambda>t. effective_deadline alpha (h t)) (zero_in_degree s')\<rparr>))))"

text \<open>
  The \<^verbatim>\<open>while\<close> loop. Nothing in its text bounds the number of iterations, so it is a
  partial function: \<open>None\<close> stands for a loop that never ends.
\<close>

partial_function (option) kahn_loop ::
  "store \<Rightarrow> int \<Rightarrow> (nat \<rightharpoonup> ref) \<Rightarrow> (nat \<rightharpoonup> nat list) \<Rightarrow> kahn_state \<Rightarrow>
   (error + kahn_state) option" where
  "kahn_loop h alpha task_map graph s =
     (if zero_in_degree s = [] then Some (Inr s)
      else (case loop_body h alpha task_map graph s of
              Inl e \<Rightarrow> Some (Inl e)
            | Inr s' \<Rightarrow> kahn_loop h alpha task_map graph s'))"

text \<open>
  Everything before the loop: the dictionaries, the graph, and the sorted pool of the tasks
  that depend on nothing present. The result is the graph and the loop's first state.
\<close>

definition initial_state ::
  "store \<Rightarrow> ref list \<Rightarrow> int \<Rightarrow> error + (nat \<rightharpoonup> nat list) \<times> kahn_state" where
  "initial_state h tasks alpha =
     (case build_graph h tasks of
        Inl e \<Rightarrow> Inl e
      | Inr (graph, in_degree0) \<Rightarrow>
          (case ready_tasks h in_degree0 tasks of
             Inl e \<Rightarrow> Inl e
           | Inr ready \<Rightarrow>
               Inr (graph,
                    \<lparr>zero_in_degree = sort_key (\<lambda>t. effective_deadline alpha (h t)) ready,
                     in_degree = in_degree0, sorted_list = []\<rparr>)))"

definition topological_sort_with_priority ::
  "store \<Rightarrow> ref list \<Rightarrow> int \<Rightarrow> (error + ref list) option" where
  "topological_sort_with_priority h tasks alpha =
     (case initial_state h tasks alpha of
        Inl e \<Rightarrow> Some (Inl e)
      | Inr (graph, s0) \<Rightarrow>
          (case kahn_loop h alpha (task_map_of h tasks) graph s0 of
             None \<Rightarrow> None
           | Some (Inl e) \<Rightarrow> Some (Inl e)
           | Some (Inr s) \<Rightarrow>
               if length (sorted_list s) \<noteq> length tasks then Some (Inl CycleError)
               else Some (Inr (sorted_list s))))"

text \<open>
  Counting iterations: \<open>run_iterations n body s = Some s'\<close> says that the loop, started in
  \<open>s\<close>, enters its body \<open>n\<close> times in a row, each time with a non-empty pool and
  without an error, and is then in state \<open>s'\<close>.
\<close>

fun run_iterations ::
  "nat \<Rightarrow> (kahn_state \<Rightarrow> error + kahn_state) \<Rightarrow> kahn_state \<Rightarrow> kahn_state option" where
  "run_iterations 0 body s = Some s"
| "run_iterations (Suc n) body s =
     (if zero_in_degree s = [] then None
      else (case body s of Inl e \<Rightarrow> None | Inr s' \<Rightarrow> run_iterations n body s'))"

section \<open>Time assignment: \<^verbatim>\<open>schedule_tasks_with_priority\<close>\<close>

definition valid_statuses :: "task_status set" where
  "valid_statuses = {ToDo, InProgress, Paused}"

text \<open>
  The body of the backward loop for one task: the store and the running
  \<^verbatim>\<open>current_time\<close> go in and come out.
\<close>

definition assign_times :: "ref \<Rightarrow> store \<times> int \<Rightarrow> store \<times> int" where
  "assign_times t hc =
     (case hc of (h, current_time) \<Rightarrow>
        let finish = min current_time (deadline (h t));
            start = finish - duration (h t)
        in (h(t := (h t)\<lparr>finish_time := Some finish, start_time := Some start\<rparr>), start))"

text \<open>
  The result pairs what the call returns or raises with the store it leaves behind.
\<close>

definition schedule_tasks_with_priority ::
  "store \<Rightarrow> ref list \<Rightarrow> int \<Rightarrow> ((error + ref list) \<times> store) option" where
  "schedule_tasks_with_priority h tasks alpha =
     (let tasks_to_do = filter (\<lambda>t. status (h t) \<in> valid_statuses) tasks in
      if tasks_to_do = [] then Some (Inr [], h)
      else
        (case topological_sort_with_priority h tasks_to_do alpha of
           None \<Rightarrow> None
         | Some (Inl e) \<Rightarrow> Some (Inl e, h)
         | Some (Inr tasks_ordered) \<Rightarrow>
             let max_deadline = Max (set (map (\<lambda>t. deadline (h t)) tasks_ordered));
                 hc = fold assign_times (rev tasks_ordered) (h, max_deadline)
             in Some (Inr tasks_ordered, fst hc)))"

section \<open>Notions used in the statements and proofs\<close>

text \<open>The ids of the tasks of a list: the keys of all three dictionaries.\<close>

definition task_ids :: "store \<Rightarrow> ref list \<Rightarrow> nat set" where
  "task_ids h tasks = (\<lambda>t. task_id (h t)) ` set tasks"

text \<open>A dictionary with key set \<open>K\<close> whose values are given by a total function.\<close>

definition dict_of :: "'k set \<Rightarrow> ('k \<Rightarrow> 'v) \<Rightarrow> ('k \<rightharpoonup> 'v)" where
  "dict_of K f = (\<lambda>k. if k \<in> K then Some (f k) else None)"

text \<open>
  What the graph construction computes, in closed form: the successor list of an id holds
  the id of every task once for each time the task names it as a dependency, and the
  in-degree of an id counts the dependency entries that are ids of the list, over all tasks
  with that id.
\<close>

definition succs_of :: "store \<Rightarrow> ref list \<Rightarrow> nat \<Rightarrow> nat list" where
  "succs_of h tasks d =
     concat (map (\<lambda>t. map (\<lambda>_. task_id (h t)) (filter (\<lambda>x. x = d) (dependencies (h t)))) tasks)"

definition indeg_of :: "store \<Rightarrow> nat set \<Rightarrow> ref list \<Rightarrow> nat \<Rightarrow> int" where
  "indeg_of h K tasks i =
     int (length (concat (map (\<lambda>t. if task_id (h t) = i
                                   then filter (\<lambda>x. x \<in> K) (dependencies (h t)) else []) tasks)))"

text \<open>
  The ids that the successor loop appends to the pool, in order, when it runs over the
  list \<open>ns\<close> with in-degrees \<open>I\<close>.
\<close>

fun newly_ready :: "(nat \<Rightarrow> int) \<Rightarrow> nat list \<Rightarrow> nat list" where
  "newly_ready I [] = []"
| "newly_ready I (n # ns) = (if I n = 1 then [n] else []) @ newly_ready (I(n := I n - 1)) ns"

text \<open>A loop state whose in-degree dictionary has the key set \<open>K\<close>.\<close>

definition kstate :: "nat set \<Rightarrow> ref list \<Rightarrow> (nat \<Rightarrow> int) \<Rightarrow> ref list \<Rightarrow> kahn_state" where
  "kstate K z I srt = \<lparr>zero_in_degree = z, in_degree = dict_of K I, sorted_list = srt\<rparr>"

text \<open>The pool and the in-degrees after one iteration that pops \<open>cur\<close>.\<close>

definition next_pool ::
  "store \<Rightarrow> int \<Rightarrow> (nat \<rightharpoonup> ref) \<Rightarrow> (nat \<Rightarrow> nat list) \<Rightarrow> ref \<Rightarrow> ref list \<Rightarrow> (nat \<Rightarrow> int) \<Rightarrow> ref list" where
  "next_pool h alpha tm G cur rest I =
     sort_key (\<lambda>t. effective_deadline alpha (h t))
       (rest @ map (\<lambda>n. the (tm n)) (newly_ready I (G (task_id (h cur)))))"

definition next_indeg :: "store \<Rightarrow> (nat \<Rightarrow> nat list) \<Rightarrow> ref \<Rightarrow> (nat \<Rightarrow> int) \<Rightarrow> nat \<Rightarrow> int" where
  "next_indeg h G cur I = (\<lambda>i. I i - int (count_list (G (task_id (h cur))) i))"

text \<open>
  What holds of the pool \<open>z\<close>, the in-degrees \<open>I\<close> and the output \<open>srt\<close> before
  every iteration, whatever the input: only tasks of the list are in the pool or emitted,
  each with an in-degree that is no longer positive; no object is there twice unless the
  input holds it twice; and the emitted tasks, the pool and the ids still waiting fit into
  the length of the input.
\<close>

definition gen_inv :: "store \<Rightarrow> ref list \<Rightarrow> ref list \<Rightarrow> (nat \<Rightarrow> int) \<Rightarrow> ref list \<Rightarrow> bool" where
  "gen_inv h tasks z I srt \<longleftrightarrow>
     set z \<union> set srt \<subseteq> set tasks \<and>
     (\<forall>t\<in>set z \<union> set srt. I (task_id (h t)) \<le> 0) \<and>
     (distinct tasks \<longrightarrow> distinct (srt @ z)) \<and>
     length srt + length z + card {i \<in> task_ids h tasks. 0 < I i} \<le> length tasks"

text \<open>
  A task whose time fields are set, with the finish time no later than the deadline and
  the start time one duration before the finish time.
\<close>

definition timed :: "Task \<Rightarrow> bool" where
  "timed a \<longleftrightarrow>
     (\<exists>f. finish_time a = Some f \<and> start_time a = Some (f - duration a) \<and> f \<le> deadline a)"

text \<open>
  The sample data of the module's \<^verbatim>\<open>__main__\<close> block: six tasks, the fifth one cancelled,
  the sixth one depending on the fourth and the first. The references are the positions
  in \<^verbatim>\<open>raw_tasks\<close>.
\<close>

definition example_store :: store where
  "example_store t =
     (if t = 0 then \<lparr>task_id = 1, deadline = 50, duration = 10, priority = 3, status = ToDo,
                       dependencies = [], start_time = None, finish_time = None\<rparr>
      else if t = 1 then \<lparr>task_id = 2, deadline = 55, duration = 5, priority = 5, status = InProgress,
                       dependencies = [], start_time = None, finish_time = None\<rparr>
      else if t = 2 then \<lparr>task_id = 3, deadline = 60, duration = 5, priority = 2, status = ToDo,
                       dependencies = [], start_time = None, finish_time = None\<rparr>
      else if t = 3 then \<lparr>task_id = 4, deadline = 60, duration = 10, priority = 4, status = Paused,
                       dependencies = [], start_time = None, finish_time = None\<rparr>
      else if t = 4 then \<lparr>task_id = 5, deadline = 100, duration = 5, priority = 1, status = Cancelled,
                       dependencies = [], start_time = None, finish_time = None\<rparr>
      else \<lparr>task_id = 6, deadline = 70, duration = 5, priority = 3, status = ToDo,
              dependencies = [4, 1], start_time = None, finish_time = None\<rparr>)"

definition example_tasks :: "ref list" where
  "example_tasks = [0, 1, 2, 3, 4, 5]"

text \<open>The store after scheduling the sample data with \<^verbatim>\<open>alpha = 0\<close>.\<close>

definition example_scheduled :: store where
  "example_scheduled t =
     (if t = 0 then (example_store 0)\<lparr>finish_time := Some 40, start_time := Some 30\<rparr>
      else if t = 1 then (example_store 1)\<lparr>finish_time := Some 45, start_time := Some 40\<rparr>
      else if t = 2 then (example_store 2)\<lparr>finish_time := Some 50, start_time := Some 45\<rparr>
      else if t = 3 then (example_store 3)\<lparr>finish_time := Some 60, start_time := Some 50\<rparr>
      else if t = 5 then (example_store 5)\<lparr>finish_time := Some 70, start_time := Some 65\<rparr>
      else example_store t)"

text \<open>
  Three tasks of which the first two depend on each other: the example of a cycle.
\<close>

definition cyclic_store :: store where
  "cyclic_store t =
     (if t = 0 then \<lparr>task_id = 1, deadline = 10, duration = 2, priority = 1, status = ToDo,
                       dependencies = [2], start_time = None, finish_time = None\<rparr>
      else if t = 1 then \<lparr>task_id = 2, deadline = 20, duration = 3, priority = 2, status = ToDo,
                       dependencies = [1], start_time = None, finish_time = None\<rparr>
      else \<lparr>task_id = 3, deadline = 30, duration = 4, priority = 3, status = Paused,
              dependencies = [], start_time = None, finish_time = None\<rparr>)"

text \<open>
  The dependency relation of a task list, restricted to the ids of the list: the pair
  \<open>(d, i)\<close> says that a task with id \<open>i\<close> names the id \<open>d\<close> of a task of the list among
  its dependencies.
\<close>

definition dep_rel :: "store \<Rightarrow> ref list \<Rightarrow> (nat \<times> nat) set" where
  "dep_rel h tasks =
     {(d, i). d \<in> task_ids h tasks \<and> (\<exists>t\<in>set tasks. task_id (h t) = i \<and> d \<in> set (dependencies (h t)))}"

text \<open>\<open>precedes out a b\<close>: \<open>a\<close> stands at a position of \<open>out\<close> strictly before one of \<open>b\<close>.\<close>

definition precedes :: "'a list \<Rightarrow> 'a \<Rightarrow> 'a \<Rightarrow> bool" where
  "precedes out a b \<longleftrightarrow> (\<exists>i j. i < j \<and> j < length out \<and> out ! i = a \<and> out ! j = b)"

text \<open>The first position of an element in a list (the length of the list if there is none).\<close>

fun index_of :: "'a list \<Rightarrow> 'a \<Rightarrow> nat" where
  "index_of [] x = 0"
| "index_of (y # ys) x = (if x = y then 0 else Suc (index_of ys x))"

text \<open>
  What holds in addition before every iteration when the ids of the list are unique: the
  in-degree of a task counts the entries for it in the successor lists of the tasks not yet
  emitted; a task whose in-degree is zero is in the pool or emitted; and every task that has
  an emitted task among its successors was emitted before it.
\<close>

definition acct_inv :: "store \<Rightarrow> ref list \<Rightarrow> ref list \<Rightarrow> (nat \<Rightarrow> int) \<Rightarrow> ref list \<Rightarrow> bool" where
  "acct_inv h tasks z I srt \<longleftrightarrow>
     (\<forall>t\<in>set tasks. I (task_id (h t)) =
          int (\<Sum>u\<in>set tasks - set srt. count_list (succs_of h tasks (task_id (h u))) (task_id (h t)))) \<and>
     (\<forall>t\<in>set tasks. I (task_id (h t)) = 0 \<longrightarrow> t \<in> set z \<union> set srt) \<and>
     (\<forall>k<length srt. \<forall>u\<in>set tasks.
          task_id (h (srt ! k)) \<in> set (succs_of h tasks (task_id (h u))) \<longrightarrow> u \<in> set (take k srt))"

text \<open>
  Three tasks for the tie between equal effective deadlines: the first task of the list
  waits for the second, and has the same deadline and priority as the third.
\<close>

definition tie_store :: store where
  "tie_store t =
     (if t = 0 then \<lparr>task_id = 1, deadline = 10, duration = 1, priority = 1, status = ToDo,
                       dependencies = [2], start_time = None, finish_time = None\<rparr>
      else if t = 1 then \<lparr>task_id = 2, deadline = 5, duration = 1, priority = 1, status = ToDo,
                       dependencies = [], start_time = None, finish_time = None\<rparr>
      else \<lparr>task_id = 3, deadline = 10, duration = 1, priority = 1, status = ToDo,
              dependencies = [], start_time = None, finish_time = None\<rparr>)"

section \<open>The dictionaries and the graph\<close>

lemma dom_dict_of [simp]: "dom (dict_of K f) = K"
  by (auto simp: dict_of_def split: if_splits)

lemma dict_of_apply: "dict_of K f k = (if k \<in> K then Some (f k) else None)"
  by (simp add: dict_of_def)

lemma fold_const_upd:
  "fold (\<lambda>t m. m(k t \<mapsto> c)) ts m0 = (\<lambda>i. if i \<in> k ` set ts then Some c else m0 i)"
  by (induction ts arbitrary: m0) (auto simp: fun_eq_iff)

lemma in_degree_init_eq: "in_degree_init h tasks = dict_of (task_ids h tasks) (\<lambda>_. 0)"
  by (simp add: in_degree_init_def fold_const_upd dict_of_def task_ids_def)

lemma graph_init_eq: "graph_init h tasks = dict_of (task_ids h tasks) (\<lambda>_. [])"
  by (simp add: graph_init_def fold_const_upd dict_of_def task_ids_def)

lemma fold_upd_other:
  "i \<notin> k ` set ts \<Longrightarrow> fold (\<lambda>t m. m(k t \<mapsto> t)) ts m0 i = m0 i"
  by (induction ts arbitrary: m0) auto

lemma fold_upd_dom:
  "dom (fold (\<lambda>t m. m(k t \<mapsto> t)) ts m0) = dom m0 \<union> k ` set ts"
  by (induction ts arbitrary: m0) auto

lemma fold_upd_Some:
  "fold (\<lambda>t m. m(k t \<mapsto> t)) ts m0 i = Some t \<Longrightarrow> (t \<in> set ts \<and> k t = i) \<or> m0 i = Some t"
proof (induction ts arbitrary: m0)
  case Nil
  then show ?case by simp
next
  case (Cons x xs)
  from Cons.prems have "fold (\<lambda>t m. m(k t \<mapsto> t)) xs (m0(k x \<mapsto> x)) i = Some t"
    by (simp del: fun_upd_apply)
  from Cons.IH[OF this] show ?case by (auto split: if_splits)
qed

lemma fold_upd_distinct:
  "distinct (map k ts) \<Longrightarrow> t \<in> set ts \<Longrightarrow> fold (\<lambda>t m. m(k t \<mapsto> t)) ts m0 (k t) = Some t"
proof (induction ts arbitrary: m0)
  case Nil
  then show ?case by simp
next
  case (Cons x xs)
  show ?case
  proof (cases "t = x")
    case True
    with Cons.prems have "k x \<notin> k ` set xs" by auto
    from fold_upd_other[OF this, of "m0(k x \<mapsto> x)"]
    have "fold (\<lambda>t m. m(k t \<mapsto> t)) xs (m0(k x \<mapsto> x)) (k x) = Some x" by simp
    with True show ?thesis by (simp del: fun_upd_apply)
  next
    case False
    with Cons show ?thesis by auto
  qed
qed

lemma dom_task_map_of: "dom (task_map_of h tasks) = task_ids h tasks"
  by (simp add: task_map_of_def fold_upd_dom task_ids_def)

lemma task_map_of_Some:
  "task_map_of h tasks i = Some t \<Longrightarrow> t \<in> set tasks \<and> task_id (h t) = i"
  unfolding task_map_of_def by (drule fold_upd_Some) auto

lemma task_map_of_distinct:
  "distinct (map (\<lambda>t. task_id (h t)) tasks) \<Longrightarrow> t \<in> set tasks \<Longrightarrow>
   task_map_of h tasks (task_id (h t)) = Some t"
  unfolding task_map_of_def by (rule fold_upd_distinct)

lemma add_dep_dict:
  assumes "dom tm = K" "i \<in> K"
  shows "add_dep tm i d (dict_of K G, dict_of K I) =
         Inr (dict_of K (\<lambda>k. G k @ (if k = d then [i] else [])),
              dict_of K (I(i := I i + (if d \<in> K then 1 else 0))))"
  using assms by (auto simp: add_dep_def dict_of_def fun_eq_iff)

lemma add_deps_dict:
  assumes "dom tm = K" "i \<in> K"
  shows "for_each (add_dep tm i) ds (dict_of K G, dict_of K I) =
         Inr (dict_of K (\<lambda>k. G k @ map (\<lambda>_. i) (filter (\<lambda>x. x = k) ds)),
              dict_of K (I(i := I i + int (length (filter (\<lambda>x. x \<in> K) ds)))))"
proof (induction ds arbitrary: G I)
  case Nil
  show ?case by simp
next
  case (Cons d ds)
  have "(\<lambda>k. (G k @ (if k = d then [i] else [])) @ map (\<lambda>_. i) (filter (\<lambda>x. x = k) ds))
        = (\<lambda>k. G k @ map (\<lambda>_. i) (filter (\<lambda>x. x = k) (d # ds)))"
    by (auto simp: fun_eq_iff)
  moreover have "(I(i := I i + (if d \<in> K then 1 else 0)))
                   (i := (I(i := I i + (if d \<in> K then 1 else 0))) i + int (length (filter (\<lambda>x. x \<in> K) ds)))
        = I(i := I i + int (length (filter (\<lambda>x. x \<in> K) (d # ds))))"
    by (auto simp: fun_eq_iff)
  ultimately show ?case
    by (simp add: add_dep_dict[OF assms] Cons.IH del: fun_upd_apply)
qed

lemma build_dict:
  assumes "dom tm = K" "\<forall>t\<in>set ts. task_id (h t) \<in> K"
  shows "for_each (add_task_deps h tm) ts (dict_of K G, dict_of K I) =
         Inr (dict_of K (\<lambda>k. G k @ succs_of h ts k), dict_of K (\<lambda>i. I i + indeg_of h K ts i))"
  using assms(2)
proof (induction ts arbitrary: G I)
  case Nil
  show ?case by (simp add: succs_of_def indeg_of_def)
next
  case (Cons t ts)
  have i: "task_id (h t) \<in> K" using Cons.prems by simp
  have g: "(\<lambda>k. G k @ map (\<lambda>_. task_id (h t)) (filter (\<lambda>x. x = k) (dependencies (h t))) @ succs_of h ts k)
           = (\<lambda>k. G k @ succs_of h (t # ts) k)"
    by (simp add: succs_of_def fun_eq_iff)
  have d: "(\<lambda>i. (I(task_id (h t) := I (task_id (h t)) + int (length (filter (\<lambda>x. x \<in> K) (dependencies (h t)))))) i
                 + indeg_of h K ts i)
           = (\<lambda>i. I i + indeg_of h K (t # ts) i)"
    by (auto simp: indeg_of_def fun_eq_iff)
  have step: "add_task_deps h tm t (dict_of K G, dict_of K I) =
      Inr (dict_of K (\<lambda>k. G k @ map (\<lambda>_. task_id (h t)) (filter (\<lambda>x. x = k) (dependencies (h t)))),
           dict_of K (I(task_id (h t) := I (task_id (h t)) + int (length (filter (\<lambda>x. x \<in> K) (dependencies (h t)))))))"
    by (simp add: add_task_deps_def add_deps_dict[OF assms(1) i])
  have rest: "\<forall>t\<in>set ts. task_id (h t) \<in> K" using Cons.prems by simp
  show ?case
    by (simp add: step Cons.IH[OF rest] g d del: fun_upd_apply)
qed

lemma build_graph_eq:
  "build_graph h tasks =
     Inr (dict_of (task_ids h tasks) (succs_of h tasks),
          dict_of (task_ids h tasks) (indeg_of h (task_ids h tasks) tasks))"
proof -
  have "\<forall>t\<in>set tasks. task_id (h t) \<in> task_ids h tasks" by (simp add: task_ids_def)
  from build_dict[OF dom_task_map_of this, of "\<lambda>_. []" "\<lambda>_. 0"]
  show ?thesis by (simp add: build_graph_def graph_init_eq in_degree_init_eq)
qed

lemma ready_tasks_dict:
  "\<forall>t\<in>set ts. task_id (h t) \<in> K \<Longrightarrow>
   ready_tasks h (dict_of K I) ts = Inr (filter (\<lambda>t. I (task_id (h t)) = 0) ts)"
  by (induction ts) (auto simp: dict_of_def)


section \<open>The main loop\<close>

lemma release_dict:
  assumes "dom tm = K" "n \<in> K"
  shows "release tm n (kstate K z I srt) =
         Inr (kstate K (z @ (if I n = 1 then [the (tm n)] else [])) (I(n := I n - 1)) srt)"
proof -
  from assms obtain t where t: "tm n = Some t" by blast
  have "dict_of K (I(n := I n - 1)) = (dict_of K I)(n \<mapsto> I n - 1)"
    using assms(2) by (auto simp: dict_of_def fun_eq_iff)
  with t assms(2) show ?thesis
    by (simp add: release_def kstate_def dict_of_apply)
qed

lemma release_all_dict:
  assumes "dom tm = K"
  shows "set ns \<subseteq> K \<Longrightarrow> for_each (release tm) ns (kstate K z I srt) =
         Inr (kstate K (z @ map (\<lambda>n. the (tm n)) (newly_ready I ns))
                (\<lambda>i. I i - int (count_list ns i)) srt)"
proof (induction ns arbitrary: z I)
  case Nil
  show ?case by simp
next
  case (Cons n ns)
  have n: "n \<in> K" and ns: "set ns \<subseteq> K" using Cons.prems by auto
  have e: "(\<lambda>i. (I(n := I n - 1)) i - int (count_list ns i)) = (\<lambda>i. I i - int (count_list (n # ns) i))"
    by (auto simp: fun_eq_iff)
  show ?case
    by (simp add: release_dict[OF assms n] Cons.IH[OF ns] e del: fun_upd_apply)
qed

lemma loop_body_dict:
  assumes "dom tm = K" "task_id (h cur) \<in> K" "set (G (task_id (h cur))) \<subseteq> K"
  shows "loop_body h alpha tm (dict_of K G) (kstate K (cur # rest) I srt) =
         Inr (kstate K (next_pool h alpha tm G cur rest I) (next_indeg h G cur I) (srt @ [cur]))"
proof -
  have "for_each (release tm) (G (task_id (h cur))) (kstate K rest I (srt @ [cur])) =
        Inr (kstate K (rest @ map (\<lambda>n. the (tm n)) (newly_ready I (G (task_id (h cur)))))
               (next_indeg h G cur I) (srt @ [cur]))"
    unfolding next_indeg_def by (rule release_all_dict[OF assms(1,3)])
  then show ?thesis
    using assms(2) by (simp add: loop_body_def kstate_def dict_of_apply next_pool_def)
qed

lemma kahn_loop_rule:
  fixes P :: "ref list \<Rightarrow> (nat \<Rightarrow> int) \<Rightarrow> ref list \<Rightarrow> bool"
    and m :: "ref list \<Rightarrow> (nat \<Rightarrow> int) \<Rightarrow> nat"
  assumes tm: "dom tm = K"
    and step: "\<And>cur rest I srt. P (cur # rest) I srt \<Longrightarrow>
        task_id (h cur) \<in> K \<and> set (G (task_id (h cur))) \<subseteq> K \<and>
        P (next_pool h alpha tm G cur rest I) (next_indeg h G cur I) (srt @ [cur]) \<and>
        m (next_pool h alpha tm G cur rest I) (next_indeg h G cur I) < m (cur # rest) I"
  shows "P z I srt \<Longrightarrow>
     \<exists>n I' srt'. n \<le> m z I \<and> length srt' = length srt + n \<and> P [] I' srt' \<and>
        run_iterations n (loop_body h alpha tm (dict_of K G)) (kstate K z I srt) = Some (kstate K [] I' srt') \<and>
        kahn_loop h alpha tm (dict_of K G) (kstate K z I srt) = Some (Inr (kstate K [] I' srt'))"
proof (induction "m z I" arbitrary: z I srt rule: less_induct)
  case less
  show ?case
  proof (cases z)
    case Nil
    have "kahn_loop h alpha tm (dict_of K G) (kstate K [] I srt) = Some (Inr (kstate K [] I srt))"
      by (subst kahn_loop.simps) (simp add: kstate_def)
    with Nil less.prems show ?thesis
      by (intro exI[of _ 0] exI[of _ I] exI[of _ srt]) simp
  next
    case (Cons cur rest)
    let ?z = "next_pool h alpha tm G cur rest I" and ?I = "next_indeg h G cur I"
    from step[of cur rest I srt] less.prems Cons
    have k: "task_id (h cur) \<in> K" "set (G (task_id (h cur))) \<subseteq> K"
      and P': "P ?z ?I (srt @ [cur])" and lt: "m ?z ?I < m z I"
      by auto
    note body = loop_body_dict[where h=h and cur=cur and G=G and alpha=alpha and rest=rest and I=I and srt=srt, OF tm k]
    from less.hyps[OF lt P'] obtain n I' srt' where
      n: "n \<le> m ?z ?I" "length srt' = length (srt @ [cur]) + n" "P [] I' srt'"
      and run: "run_iterations n (loop_body h alpha tm (dict_of K G)) (kstate K ?z ?I (srt @ [cur])) = Some (kstate K [] I' srt')"
      and loop: "kahn_loop h alpha tm (dict_of K G) (kstate K ?z ?I (srt @ [cur])) = Some (Inr (kstate K [] I' srt'))"
      by blast
    have z: "zero_in_degree (kstate K (cur # rest) I srt) \<noteq> []" by (simp add: kstate_def)
    have "kahn_loop h alpha tm (dict_of K G) (kstate K (cur # rest) I srt) = Some (Inr (kstate K [] I' srt'))"
      by (subst kahn_loop.simps) (simp add: z body loop)
    moreover have "run_iterations (Suc n) (loop_body h alpha tm (dict_of K G)) (kstate K (cur # rest) I srt)
                   = Some (kstate K [] I' srt')"
      by (simp add: z body run)
    ultimately show ?thesis
      using n lt Cons by (intro exI[of _ "Suc n"] exI[of _ I'] exI[of _ srt']) simp
  qed
qed


lemma newly_ready_bounds:
  "n \<in> set (newly_ready I ns) \<Longrightarrow> n \<in> set ns \<and> 1 \<le> I n \<and> I n \<le> int (count_list ns n)"
proof (induction ns arbitrary: I)
  case Nil
  then show ?case by simp
next
  case (Cons x ns)
  from Cons.prems consider "n = x" "I x = 1" | "n \<in> set (newly_ready (I(x := I x - 1)) ns)"
    by (auto split: if_splits)
  then show ?case
  proof cases
    case 1
    then show ?thesis by simp
  next
    case 2
    from Cons.IH[OF 2] show ?thesis by (auto split: if_splits)
  qed
qed

lemma distinct_newly_ready: "distinct (newly_ready I ns)"
proof (induction ns arbitrary: I)
  case Nil
  show ?case by simp
next
  case (Cons x ns)
  have "x \<notin> set (newly_ready (I(x := I x - 1)) ns)" if "I x = 1"
  proof
    assume "x \<in> set (newly_ready (I(x := I x - 1)) ns)"
    from newly_ready_bounds[OF this] that show False by simp
  qed
  with Cons.IH show ?case by simp
qed

lemma newly_ready_complete:
  "0 < count_list ns n \<Longrightarrow> I n = int (count_list ns n) \<Longrightarrow> n \<in> set (newly_ready I ns)"
proof (induction ns arbitrary: I)
  case Nil
  then show ?case by simp
next
  case (Cons x ns)
  show ?case
  proof (cases "x = n")
    case True
    show ?thesis
    proof (cases "count_list ns n = 0")
      case True
      with \<open>x = n\<close> Cons.prems show ?thesis by simp
    next
      case False
      with \<open>x = n\<close> Cons.prems have "n \<in> set (newly_ready (I(x := I x - 1)) ns)"
        by (intro Cons.IH) auto
      then show ?thesis by simp
    qed
  next
    case False
    with Cons.prems have "n \<in> set (newly_ready (I(x := I x - 1)) ns)"
      by (intro Cons.IH) auto
    then show ?thesis by simp
  qed
qed

lemma newly_ready_measure:
  assumes "finite K"
  shows "set ns \<subseteq> K \<Longrightarrow>
         length (newly_ready I ns) + card {i \<in> K. 0 < I i - int (count_list ns i)}
         \<le> card {i \<in> K. 0 < I i}"
proof (induction ns arbitrary: I)
  case Nil
  show ?case by simp
next
  case (Cons x ns)
  let ?I = "I(x := I x - 1)"
  have x: "x \<in> K" and ns: "set ns \<subseteq> K" using Cons.prems by auto
  have e: "{i \<in> K. 0 < ?I i - int (count_list ns i)} = {i \<in> K. 0 < I i - int (count_list (x # ns) i)}"
    by auto
  have fin: "finite {i \<in> K. 0 < I i}" using assms by simp
  have hd: "(if I x = 1 then 1 else 0) + card {i \<in> K. 0 < ?I i} \<le> card {i \<in> K. 0 < I i}"
  proof (cases "I x = 1")
    case True
    then have "{i \<in> K. 0 < ?I i} = {i \<in> K. 0 < I i} - {x}" by auto
    moreover have "x \<in> {i \<in> K. 0 < I i}" using True x by simp
    ultimately have "card {i \<in> K. 0 < ?I i} = card {i \<in> K. 0 < I i} - 1" by simp
    moreover have "0 < card {i \<in> K. 0 < I i}"
      using \<open>x \<in> {i \<in> K. 0 < I i}\<close> fin card_gt_0_iff by blast
    ultimately show ?thesis using True by simp
  next
    case False
    have "{i \<in> K. 0 < ?I i} \<subseteq> {i \<in> K. 0 < I i}" by auto
    from card_mono[OF fin this] False show ?thesis by simp
  qed
  have "length (newly_ready I (x # ns)) = (if I x = 1 then 1 else 0) + length (newly_ready ?I ns)"
    by simp
  with Cons.IH[OF ns, of ?I] hd show ?case unfolding e by linarith
qed

lemma set_succs_of: "set (succs_of h tasks d) \<subseteq> task_ids h tasks"
  by (auto simp: succs_of_def task_ids_def)

lemma task_map_of_in:
  assumes "n \<in> task_ids h tasks"
  shows "the (task_map_of h tasks n) \<in> set tasks \<and> task_id (h (the (task_map_of h tasks n))) = n"
proof -
  from assms dom_task_map_of[of h tasks] obtain t where "task_map_of h tasks n = Some t" by blast
  with task_map_of_Some[OF this] show ?thesis by simp
qed

lemma gen_inv_step:
  assumes G: "\<And>k. set (G k) \<subseteq> task_ids h tasks"
    and inv: "gen_inv h tasks (cur # rest) I srt"
  shows "gen_inv h tasks (next_pool h alpha (task_map_of h tasks) G cur rest I) (next_indeg h G cur I) (srt @ [cur])"
    and "length (next_pool h alpha (task_map_of h tasks) G cur rest I)
           + card {i \<in> task_ids h tasks. 0 < next_indeg h G cur I i}
         < length (cur # rest) + card {i \<in> task_ids h tasks. 0 < I i}"
proof -
  let ?K = "task_ids h tasks" and ?tm = "task_map_of h tasks"
  let ?ns = "G (task_id (h cur))"
  let ?I = "next_indeg h G cur I"
  define new where "new = map (\<lambda>n. the (?tm n)) (newly_ready I ?ns)"
  define z' where "z' = next_pool h alpha ?tm G cur rest I"
  have fin: "finite ?K" by (simp add: task_ids_def)
  have pool: "set z' = set rest \<union> set new"
    and len: "length z' = length rest + length (newly_ready I ?ns)"
    and dz: "distinct z' = distinct (rest @ new)"
    by (simp_all add: next_pool_def z'_def new_def)
  have nr: "n \<in> ?K \<and> 1 \<le> I n \<and> ?I n \<le> 0" if a: "n \<in> set (newly_ready I ?ns)" for n
  proof -
    from newly_ready_bounds[OF a]
    have b: "n \<in> set ?ns" "1 \<le> I n" "I n \<le> int (count_list ?ns n)" by simp_all
    from b(1) G[of "task_id (h cur)"] have "n \<in> ?K" by blast
    with b(2,3) show ?thesis by (simp add: next_indeg_def)
  qed
  have new: "t \<in> set tasks \<and> 1 \<le> I (task_id (h t)) \<and> ?I (task_id (h t)) \<le> 0"
    if a: "t \<in> set new" for t
  proof -
    from a obtain n where n: "n \<in> set (newly_ready I ?ns)" "t = the (?tm n)"
      unfolding new_def by auto
    from nr[OF n(1)] have k: "n \<in> ?K" "1 \<le> I n" "?I n \<le> 0" by simp_all
    from task_map_of_in[OF k(1)] n(2) have "t \<in> set tasks" "task_id (h t) = n" by simp_all
    with k show ?thesis by simp
  qed
  have le: "?I i \<le> I i" for i by (simp add: next_indeg_def)
  from inv have old1: "set (cur # rest) \<union> set srt \<subseteq> set tasks"
    unfolding gen_inv_def by (elim conjE)
  from inv have old2: "\<forall>t\<in>set (cur # rest) \<union> set srt. I (task_id (h t)) \<le> 0"
    unfolding gen_inv_def by (elim conjE)
  from inv have old3: "distinct tasks \<longrightarrow> distinct (srt @ cur # rest)"
    unfolding gen_inv_def by (elim conjE)
  from inv have old4: "length srt + length (cur # rest) + card {i \<in> ?K. 0 < I i} \<le> length tasks"
    unfolding gen_inv_def by (elim conjE)
  have m: "length (newly_ready I ?ns) + card {i \<in> ?K. 0 < ?I i} \<le> card {i \<in> ?K. 0 < I i}"
    unfolding next_indeg_def by (rule newly_ready_measure[OF fin G])
  from m have "length z' + card {i \<in> ?K. 0 < ?I i} < length (cur # rest) + card {i \<in> ?K. 0 < I i}"
    unfolding len by simp
  then show "length (next_pool h alpha ?tm G cur rest I) + card {i \<in> ?K. 0 < ?I i}
         < length (cur # rest) + card {i \<in> ?K. 0 < I i}"
    unfolding z'_def .
  have cases: "t \<in> set new \<or> t \<in> set (cur # rest) \<union> set srt"
    if "t \<in> set z' \<union> set (srt @ [cur])" for t
    using that unfolding pool by auto
  have 1: "set z' \<union> set (srt @ [cur]) \<subseteq> set tasks"
  proof
    fix t assume "t \<in> set z' \<union> set (srt @ [cur])"
    from cases[OF this] show "t \<in> set tasks"
    proof
      assume "t \<in> set new" then show ?thesis using new by blast
    next
      assume "t \<in> set (cur # rest) \<union> set srt" with old1 show ?thesis by blast
    qed
  qed
  have 2: "\<forall>t\<in>set z' \<union> set (srt @ [cur]). ?I (task_id (h t)) \<le> 0"
  proof
    fix t assume "t \<in> set z' \<union> set (srt @ [cur])"
    from cases[OF this] show "?I (task_id (h t)) \<le> 0"
    proof
      assume "t \<in> set new" then show ?thesis using new by blast
    next
      assume "t \<in> set (cur # rest) \<union> set srt"
      with old2 have "I (task_id (h t)) \<le> 0" by blast
      with le[of "task_id (h t)"] show ?thesis by linarith
    qed
  qed
  have 3: "distinct tasks \<longrightarrow> distinct ((srt @ [cur]) @ z')"
  proof
    assume "distinct tasks"
    with old3 have d: "distinct (srt @ cur # rest)" by blast
    have inj: "inj_on (\<lambda>n. the (?tm n)) (set (newly_ready I ?ns))"
    proof (rule inj_onI)
      fix a b assume "a \<in> set (newly_ready I ?ns)" "b \<in> set (newly_ready I ?ns)"
        and eq: "the (?tm a) = the (?tm b)"
      then have "a \<in> ?K" "b \<in> ?K" using nr by blast+
      from task_map_of_in[OF this(1)] task_map_of_in[OF this(2)]
      have A: "task_id (h (the (?tm a))) = a" and B: "task_id (h (the (?tm b))) = b" by blast+
      from A have "a = task_id (h (the (?tm b)))" unfolding eq by (rule sym)
      with B show "a = b" by (simp only:)
    qed
    have dn: "distinct new" unfolding new_def by (simp add: distinct_map distinct_newly_ready inj)
    have disj: "t \<notin> set srt \<and> t \<noteq> cur \<and> t \<notin> set rest" if "t \<in> set new" for t
    proof -
      from new[OF that] have "1 \<le> I (task_id (h t))" by simp
      have "t \<notin> set (cur # rest) \<union> set srt"
      proof
        assume "t \<in> set (cur # rest) \<union> set srt"
        with old2 have "I (task_id (h t)) \<le> 0" by blast
        with \<open>1 \<le> I (task_id (h t))\<close> show False by linarith
      qed
      then show ?thesis by simp
    qed
    have "distinct (srt @ cur # rest @ new)"
      using d dn disj by (simp only: distinct_append distinct.simps set_append set_simps) blast
    then show "distinct ((srt @ [cur]) @ z')"
      using dz by (simp only: distinct_append distinct.simps set_append set_simps pool) blast
  qed
  have 4: "length (srt @ [cur]) + length z' + card {i \<in> ?K. 0 < ?I i} \<le> length tasks"
    using old4 m unfolding len by simp
  show "gen_inv h tasks (next_pool h alpha ?tm G cur rest I) ?I (srt @ [cur])"
    unfolding gen_inv_def z'_def[symmetric] by (intro conjI 1 2 3 4)
qed

lemma sorted_list_kstate: "sorted_list (kstate K z I srt) = srt"
  by (simp add: kstate_def)

lemma initial_state_eq:
  "initial_state h tasks alpha =
     Inr (dict_of (task_ids h tasks) (succs_of h tasks),
          kstate (task_ids h tasks)
            (sort_key (\<lambda>t. effective_deadline alpha (h t))
               (filter (\<lambda>t. indeg_of h (task_ids h tasks) tasks (task_id (h t)) = 0) tasks))
            (indeg_of h (task_ids h tasks) tasks) [])"
proof -
  have "\<forall>t\<in>set tasks. task_id (h t) \<in> task_ids h tasks" by (simp add: task_ids_def)
  from ready_tasks_dict[OF this] show ?thesis
    by (simp add: initial_state_def build_graph_eq kstate_def)
qed

lemma card_positive_ids:
  "card {i \<in> task_ids h tasks. 0 < (I i :: int)}
   \<le> length (filter (\<lambda>t. \<not> I (task_id (h t)) = 0) tasks)"
proof -
  have "{i \<in> task_ids h tasks. 0 < I i}
        \<subseteq> (\<lambda>t. task_id (h t)) ` set (filter (\<lambda>t. \<not> I (task_id (h t)) = 0) tasks)"
    by (auto simp: task_ids_def)
  then have "card {i \<in> task_ids h tasks. 0 < I i}
        \<le> card ((\<lambda>t. task_id (h t)) ` set (filter (\<lambda>t. \<not> I (task_id (h t)) = 0) tasks))"
    by (intro card_mono) simp_all
  also have "\<dots> \<le> card (set (filter (\<lambda>t. \<not> I (task_id (h t)) = 0) tasks))"
    by (intro card_image_le) simp
  also have "\<dots> \<le> length (filter (\<lambda>t. \<not> I (task_id (h t)) = 0) tasks)"
    by (rule card_length)
  finally show ?thesis .
qed

lemma gen_inv_init:
  "gen_inv h tasks
     (sort_key key (filter (\<lambda>t. I (task_id (h t)) = 0) tasks)) I []"
proof -
  have "length (filter (\<lambda>t. I (task_id (h t)) = 0) tasks)
        + length (filter (\<lambda>t. \<not> I (task_id (h t)) = 0) tasks) = length tasks"
    by (rule sum_length_filter_compl)
  with card_positive_ids[of h tasks I]
  have "length (filter (\<lambda>t. I (task_id (h t)) = 0) tasks)
        + card {i \<in> task_ids h tasks. 0 < I i} \<le> length tasks"
    by linarith
  then show ?thesis by (simp add: gen_inv_def)
qed

lemma topological_sort_run:
  fixes Q :: "ref list \<Rightarrow> (nat \<Rightarrow> int) \<Rightarrow> ref list \<Rightarrow> bool"
    and h :: store and tasks :: "ref list" and alpha :: int
  defines "K \<equiv> task_ids h tasks"
  defines "I0 \<equiv> indeg_of h (task_ids h tasks) tasks"
  defines "z0 \<equiv> sort_key (\<lambda>t. effective_deadline alpha (h t))
               (filter (\<lambda>t. indeg_of h (task_ids h tasks) tasks (task_id (h t)) = 0) tasks)"
  defines "body \<equiv> loop_body h alpha (task_map_of h tasks) (dict_of (task_ids h tasks) (succs_of h tasks))"
  assumes keep: "\<And>cur rest I srt. gen_inv h tasks (cur # rest) I srt \<Longrightarrow> Q (cur # rest) I srt \<Longrightarrow>
        Q (next_pool h alpha (task_map_of h tasks) (succs_of h tasks) cur rest I)
          (next_indeg h (succs_of h tasks) cur I) (srt @ [cur])"
    and init: "Q z0 I0 []"
  shows "\<exists>n I srt. n \<le> length tasks \<and> length srt = n \<and> gen_inv h tasks [] I srt \<and> Q [] I srt \<and>
           run_iterations n body (kstate K z0 I0 []) = Some (kstate K [] I srt) \<and>
           kahn_loop h alpha (task_map_of h tasks) (dict_of K (succs_of h tasks)) (kstate K z0 I0 [])
             = Some (Inr (kstate K [] I srt)) \<and>
           topological_sort_with_priority h tasks alpha =
             Some (if length srt \<noteq> length tasks then Inl CycleError else Inr srt)"
proof -
  let ?tm = "task_map_of h tasks" and ?G = "succs_of h tasks"
  let ?P = "\<lambda>z I srt. gen_inv h tasks z I srt \<and> Q z I srt"
  let ?m = "\<lambda>z (I :: nat \<Rightarrow> int). length z + card {i \<in> K. 0 < I i}"
  have G: "\<And>k. set (?G k) \<subseteq> task_ids h tasks" by (rule set_succs_of)
  have step: "task_id (h cur) \<in> K \<and> set (?G (task_id (h cur))) \<subseteq> K \<and>
        ?P (next_pool h alpha ?tm ?G cur rest I) (next_indeg h ?G cur I) (srt @ [cur]) \<and>
        ?m (next_pool h alpha ?tm ?G cur rest I) (next_indeg h ?G cur I) < ?m (cur # rest) I"
    if P: "?P (cur # rest) I srt" for cur rest I srt
  proof -
    from P have g: "gen_inv h tasks (cur # rest) I srt" and q: "Q (cur # rest) I srt" by blast+
    from g have "cur \<in> set tasks" by (simp add: gen_inv_def)
    then have "task_id (h cur) \<in> K" by (simp add: K_def task_ids_def)
    moreover have "set (?G (task_id (h cur))) \<subseteq> K" unfolding K_def by (rule G)
    moreover note gen_inv_step[where G="?G" and alpha=alpha, OF G g] keep[OF g q]
    ultimately show ?thesis unfolding K_def by blast
  qed
  have P0: "?P z0 I0 []"
    using init gen_inv_init[of h tasks "\<lambda>t. effective_deadline alpha (h t)" I0]
    unfolding z0_def I0_def by blast
  have tm: "dom ?tm = K" unfolding K_def by (rule dom_task_map_of)
  from kahn_loop_rule[where P="?P" and m="?m" and G="?G" and h=h and alpha=alpha, OF tm step P0]
  obtain n I srt where n: "n \<le> ?m z0 I0" "length srt = length ([]::ref list) + n" "?P [] I srt"
    and run: "run_iterations n (loop_body h alpha ?tm (dict_of K ?G)) (kstate K z0 I0 []) = Some (kstate K [] I srt)"
    and loop: "kahn_loop h alpha ?tm (dict_of K ?G) (kstate K z0 I0 []) = Some (Inr (kstate K [] I srt))"
    by blast
  from P0 have "?m z0 I0 \<le> length tasks" unfolding K_def by (simp add: gen_inv_def)
  with n(1) have le: "n \<le> length tasks" by linarith
  have init_eq: "initial_state h tasks alpha = Inr (dict_of K ?G, kstate K z0 I0 [])"
    unfolding K_def z0_def I0_def by (rule initial_state_eq)
  have "topological_sort_with_priority h tasks alpha =
          Some (if length srt \<noteq> length tasks then Inl CycleError else Inr srt)"
    by (simp add: topological_sort_with_priority_def init_eq loop sorted_list_kstate)
  with le n(2,3) run loop show ?thesis
    unfolding body_def K_def by (intro exI[of _ n] exI[of _ I] exI[of _ srt]) simp
qed

section \<open>The backward pass\<close>

lemma assign_times_eq:
  "assign_times t (h, c) =
     (h(t := (h t)\<lparr>finish_time := Some (min c (deadline (h t))),
                    start_time := Some (min c (deadline (h t)) - duration (h t))\<rparr>),
      min c (deadline (h t)) - duration (h t))"
  by (simp add: assign_times_def Let_def)

lemma fold_assign_frame:
  "t \<notin> set ts \<Longrightarrow> fst (fold assign_times ts (h, c)) t = h t"
proof (induction ts arbitrary: h c)
  case Nil
  show ?case by simp
next
  case (Cons x xs)
  then have "t \<noteq> x" "t \<notin> set xs" by auto
  from Cons.IH[OF this(2)] this(1) show ?case
    by (simp add: assign_times_eq del: fun_upd_apply) simp
qed

lemma fold_assign_keeps:
  assumes "\<And>a x y. f (a\<lparr>finish_time := x, start_time := y\<rparr>) = f a"
  shows "f (fst (fold assign_times ts (h, c)) t) = f (h t)"
proof (induction ts arbitrary: h c)
  case Nil
  show ?case by simp
next
  case (Cons x xs)
  show ?case by (simp add: assign_times_eq Cons.IH assms)
qed

lemma fold_assign_static:
  "task_id (fst (fold assign_times ts (h, c)) t) = task_id (h t)"
  "deadline (fst (fold assign_times ts (h, c)) t) = deadline (h t)"
  "duration (fst (fold assign_times ts (h, c)) t) = duration (h t)"
  "priority (fst (fold assign_times ts (h, c)) t) = priority (h t)"
  "status (fst (fold assign_times ts (h, c)) t) = status (h t)"
  "dependencies (fst (fold assign_times ts (h, c)) t) = dependencies (h t)"
  by (rule fold_assign_keeps, simp)+

lemma fold_assign_timed:
  "(\<forall>t\<in>A. timed (h t)) \<Longrightarrow> \<forall>t\<in>A \<union> set ts. timed (fst (fold assign_times ts (h, c)) t)"
proof (induction ts arbitrary: h c A)
  case Nil
  then show ?case by simp
next
  case (Cons x xs)
  let ?h = "h(x := (h x)\<lparr>finish_time := Some (min c (deadline (h x))),
                    start_time := Some (min c (deadline (h x)) - duration (h x))\<rparr>)"
  have "\<forall>t\<in>insert x A. timed (?h t)"
    using Cons.prems by (auto simp: timed_def)
  from Cons.IH[OF this, of "min c (deadline (h x)) - duration (h x)"]
  show ?case by (simp add: assign_times_eq del: fun_upd_apply)
qed

section \<open>Results of the two functions\<close>

lemma topological_sort_cases:
  "topological_sort_with_priority h tasks alpha = Some (Inl CycleError) \<or>
   (\<exists>out. topological_sort_with_priority h tasks alpha = Some (Inr out) \<and>
      set out \<subseteq> set tasks \<and> length out = length tasks \<and> (distinct tasks \<longrightarrow> distinct out))"
proof -
  from topological_sort_run[of h tasks "\<lambda>_ _ _. True" alpha]
  obtain I srt where g: "gen_inv h tasks [] I srt"
    and r: "topological_sort_with_priority h tasks alpha =
             Some (if length srt \<noteq> length tasks then Inl CycleError else Inr srt)"
    by blast
  from g have "set srt \<subseteq> set tasks" "distinct tasks \<longrightarrow> distinct srt"
    by (simp_all add: gen_inv_def)
  with r show ?thesis by (cases "length srt = length tasks") simp_all
qed

lemma topological_sort_Nil: "topological_sort_with_priority h [] alpha = Some (Inr [])"
proof -
  from topological_sort_run[of h "[]" "\<lambda>_ _ _. True" alpha]
  obtain n srt where "n \<le> length ([] :: ref list)" "length srt = n"
    and r: "topological_sort_with_priority h [] alpha =
             Some (if length srt \<noteq> length ([] :: ref list) then Inl CycleError else Inr srt)"
    by blast
  then have "srt = []" by simp
  with r show ?thesis by simp
qed

lemma schedule_cases:
  fixes h :: store and tasks :: "ref list" and alpha :: int
  defines "todo \<equiv> filter (\<lambda>t. status (h t) \<in> valid_statuses) tasks"
  shows "(schedule_tasks_with_priority h tasks alpha = Some (Inl CycleError, h) \<and>
          topological_sort_with_priority h todo alpha = Some (Inl CycleError)) \<or>
         (\<exists>out. topological_sort_with_priority h todo alpha = Some (Inr out) \<and>
            set out \<subseteq> set todo \<and> length out = length todo \<and> (distinct todo \<longrightarrow> distinct out) \<and>
            schedule_tasks_with_priority h tasks alpha =
              Some (Inr out, fst (fold assign_times (rev out)
                                   (h, Max (set (map (\<lambda>t. deadline (h t)) out))))))"
proof -
  from topological_sort_cases[of h todo alpha]
  consider (cycle) "topological_sort_with_priority h todo alpha = Some (Inl CycleError)"
    | (ok) out where "topological_sort_with_priority h todo alpha = Some (Inr out)"
        "set out \<subseteq> set todo" "length out = length todo" "distinct todo \<longrightarrow> distinct out"
    by blast
  then show ?thesis
  proof cases
    case cycle
    then have "todo \<noteq> []"
      using topological_sort_Nil[of h alpha] by auto
    with cycle show ?thesis
      by (simp add: schedule_tasks_with_priority_def todo_def[symmetric])
  next
    case ok
    have "schedule_tasks_with_priority h tasks alpha =
            Some (Inr out, fst (fold assign_times (rev out)
                                 (h, Max (set (map (\<lambda>t. deadline (h t)) out)))))"
    proof (cases "todo = []")
      case True
      with ok(3) have "out = []" by simp
      with True show ?thesis
        by (simp add: schedule_tasks_with_priority_def todo_def[symmetric])
    next
      case False
      with ok(1) show ?thesis
        by (simp add: schedule_tasks_with_priority_def todo_def[symmetric] Let_def)
    qed
    with ok show ?thesis by blast
  qed
qed

section \<open>The sample data, evaluated\<close>

lemmas eval_defs = topological_sort_with_priority_def initial_state_def build_graph_def task_map_of_def
  graph_init_def in_degree_init_def add_task_deps_def add_dep_def loop_body_def release_def
  effective_deadline_def

lemma example_todo:
  "filter (\<lambda>t. status (example_store t) \<in> valid_statuses) example_tasks = [0, 1, 2, 3, 5]"
  by (simp add: example_tasks_def example_store_def valid_statuses_def)

lemma example_order:
  "topological_sort_with_priority example_store [0, 1, 2, 3, 5] 0 = Some (Inr [0, 1, 2, 3, 5])"
  by (simp add: eval_defs kahn_loop.simps example_store_def)

lemma example_schedule:
  "schedule_tasks_with_priority example_store example_tasks 0 = Some (Inr [0, 1, 2, 3, 5], example_scheduled)"
proof -
  have "fst (fold assign_times (rev [0, 1, 2, 3, 5])
          (example_store, Max (set (map (\<lambda>t. deadline (example_store t)) [0, 1, 2, 3, 5]))))
        = example_scheduled"
    by (rule ext) (simp add: assign_times_eq example_store_def example_scheduled_def)
  then show ?thesis
    unfolding schedule_tasks_with_priority_def Let_def example_todo example_order
    by (simp only: option.case sum.case list.simps if_False)
qed

lemma cyclic_order:
  "topological_sort_with_priority cyclic_store [0, 1, 2] 0 = Some (Inl CycleError)"
  by (simp add: eval_defs kahn_loop.simps cyclic_store_def)

lemma cyclic_loop:
  "(case initial_state cyclic_store [0, 1, 2] 0 of
      Inl e \<Rightarrow> False
    | Inr (graph, s0) \<Rightarrow>
        (case kahn_loop cyclic_store 0 (task_map_of cyclic_store [0, 1, 2]) graph s0 of
           Some (Inr s) \<Rightarrow> sorted_list s = [2]
         | _ \<Rightarrow> False))"
  by (simp add: eval_defs kahn_loop.simps cyclic_store_def)

section \<open>The claims about scheduling\<close>

text \<open>
  C9: when the task list is empty, or every task in it is cancelled, done or deleted,
  \<^verbatim>\<open>schedule_tasks_with_priority\<close> returns the empty list, raises nothing, and leaves the
  store as it was, whatever \<^verbatim>\<open>alpha\<close> is.
\<close>

theorem all_filtered_out_returns_empty:
  assumes "\<forall>t\<in>set tasks. status (h t) \<in> {Cancelled, Done, Deleted}"
  shows "schedule_tasks_with_priority h tasks alpha = Some (Inr [], h)"
proof -
  from assms have "filter (\<lambda>t. status (h t) \<in> valid_statuses) tasks = []"
    by (auto simp: filter_empty_conv valid_statuses_def)
  then show ?thesis by (simp add: schedule_tasks_with_priority_def)
qed

theorem all_filtered_out_returns_empty_witness:
  "status (example_store 4) = Cancelled \<and>
   schedule_tasks_with_priority example_store [4, 4] 5 = Some (Inr [], example_store) \<and>
   schedule_tasks_with_priority example_store [] 5 = Some (Inr [], example_store)"
proof -
  have c: "status (example_store 4) = Cancelled" by (simp add: example_store_def)
  then have "\<forall>t\<in>set [4, 4]. status (example_store t) \<in> {Cancelled, Done, Deleted}" by simp
  from all_filtered_out_returns_empty[OF this, of 5]
    all_filtered_out_returns_empty[of "[]" example_store 5] c
  show ?thesis by simp
qed

text \<open>
  C8: \<^verbatim>\<open>schedule_tasks_with_priority\<close> always returns or raises, and a task whose status is
  cancelled, done or deleted is not in the returned list and is the same object after the
  call as before it, so that time fields that were unset stay unset. Every object that the
  call changes is a task of the input list with one of the three plannable statuses.
\<close>

theorem filtered_out_tasks_untouched:
  "\<exists>res h'. schedule_tasks_with_priority h tasks alpha = Some (res, h') \<and>
     (\<forall>t. status (h t) \<in> {Cancelled, Done, Deleted} \<longrightarrow>
          h' t = h t \<and> (\<forall>out. res = Inr out \<longrightarrow> t \<notin> set out)) \<and>
     (\<forall>t. h' t \<noteq> h t \<longrightarrow> t \<in> set tasks \<and> status (h t) \<in> valid_statuses)"
proof -
  let ?todo = "filter (\<lambda>t. status (h t) \<in> valid_statuses) tasks"
  from schedule_cases[of h tasks alpha]
  consider (cycle) "schedule_tasks_with_priority h tasks alpha = Some (Inl CycleError, h)"
    | (ok) out where "set out \<subseteq> set ?todo"
        "schedule_tasks_with_priority h tasks alpha =
           Some (Inr out, fst (fold assign_times (rev out)
                                (h, Max (set (map (\<lambda>t. deadline (h t)) out)))))"
    by blast
  then show ?thesis
  proof cases
    case cycle
    then show ?thesis by simp
  next
    case ok
    let ?h' = "fst (fold assign_times (rev out) (h, Max (set (map (\<lambda>t. deadline (h t)) out))))"
    have frame: "?h' t = h t" if "t \<notin> set out" for t
      using that by (intro fold_assign_frame) simp
    have valid: "t \<in> set tasks \<and> status (h t) \<in> valid_statuses" if "t \<in> set out" for t
      using that ok(1) by auto
    have a: "?h' t = h t \<and> (\<forall>out'. Inr out = (Inr out' :: error + ref list) \<longrightarrow> t \<notin> set out')"
      if "status (h t) \<in> {Cancelled, Done, Deleted}" for t
    proof -
      from that have "status (h t) \<notin> valid_statuses" by (auto simp: valid_statuses_def)
      with valid have "t \<notin> set out" by blast
      with frame show ?thesis by simp
    qed
    have b: "t \<in> set tasks \<and> status (h t) \<in> valid_statuses" if "?h' t \<noteq> h t" for t
      using that frame valid by blast
    from ok(2) a b show ?thesis by blast
  qed
qed

theorem filtered_out_tasks_untouched_witness:
  "schedule_tasks_with_priority example_store example_tasks 0
     = Some (Inr [0, 1, 2, 3, 5], example_scheduled) \<and>
   status (example_store 4) = Cancelled \<and> example_scheduled 4 = example_store 4 \<and>
   start_time (example_scheduled 4) = None \<and> finish_time (example_scheduled 4) = None \<and>
   example_scheduled 0 \<noteq> example_store 0 \<and> status (example_store 0) = ToDo"
proof -
  from filtered_out_tasks_untouched[of example_store example_tasks 0]
  obtain res h' where
    r: "schedule_tasks_with_priority example_store example_tasks 0 = Some (res, h')"
    and u: "\<forall>t. status (example_store t) \<in> {Cancelled, Done, Deleted} \<longrightarrow> h' t = example_store t"
    by blast
  from r have h': "h' = example_scheduled" by (simp add: example_schedule)
  have c: "status (example_store 4) = Cancelled" by (simp add: example_store_def)
  with u h' have "example_scheduled 4 = example_store 4" by simp
  moreover have "start_time (example_store 4) = None" "finish_time (example_store 4) = None"
    "status (example_store 0) = ToDo" "example_scheduled 0 \<noteq> example_store 0"
    by (simp_all add: example_store_def example_scheduled_def)
  ultimately show ?thesis using c example_schedule by simp
qed

lemma schedule_timed:
  "\<exists>res h'. schedule_tasks_with_priority h tasks alpha = Some (res, h') \<and>
     (\<forall>out. res = Inr out \<longrightarrow> (\<forall>t\<in>set out. timed (h' t)))"
proof -
  from schedule_cases[of h tasks alpha]
  consider (cycle) "schedule_tasks_with_priority h tasks alpha = Some (Inl CycleError, h)"
    | (ok) out where
        "schedule_tasks_with_priority h tasks alpha =
           Some (Inr out, fst (fold assign_times (rev out)
                                (h, Max (set (map (\<lambda>t. deadline (h t)) out)))))"
    by blast
  then show ?thesis
  proof cases
    case cycle
    then show ?thesis by simp
  next
    case ok
    have "\<forall>t\<in>{} \<union> set (rev out).
            timed (fst (fold assign_times (rev out) (h, Max (set (map (\<lambda>t. deadline (h t)) out)))) t)"
      by (rule fold_assign_timed) simp
    with ok show ?thesis by simp
  qed
qed

text \<open>
  C6: \<^verbatim>\<open>schedule_tasks_with_priority\<close> always returns or raises, and every task in a
  returned list has a finish time that is at most its deadline, whatever the input and
  \<^verbatim>\<open>alpha\<close> are.
\<close>

theorem finish_time_within_deadline:
  "\<exists>res h'. schedule_tasks_with_priority h tasks alpha = Some (res, h') \<and>
     (\<forall>out. res = Inr out \<longrightarrow>
        (\<forall>t\<in>set out. \<exists>f. finish_time (h' t) = Some f \<and> f \<le> deadline (h' t)))"
proof -
  from schedule_timed[of h tasks alpha] obtain res h' where
    r: "schedule_tasks_with_priority h tasks alpha = Some (res, h')"
    and t: "\<forall>out. res = Inr out \<longrightarrow> (\<forall>t\<in>set out. timed (h' t))"
    by blast
  have "\<exists>f. finish_time (h' t) = Some f \<and> f \<le> deadline (h' t)" if "timed (h' t)" for t
    using that unfolding timed_def by blast
  with r t show ?thesis by blast
qed

theorem finish_time_within_deadline_witness:
  "schedule_tasks_with_priority example_store example_tasks 0
     = Some (Inr [0, 1, 2, 3, 5], example_scheduled) \<and>
   map (\<lambda>t. finish_time (example_scheduled t)) [0, 1, 2, 3, 5]
     = [Some 40, Some 45, Some 50, Some 60, Some 70] \<and>
   map (\<lambda>t. deadline (example_scheduled t)) [0, 1, 2, 3, 5] = [50, 55, 60, 60, 70] \<and>
   (\<exists>f. finish_time (example_scheduled 3) = Some f \<and> f \<le> deadline (example_scheduled 3))"
proof -
  from finish_time_within_deadline[of example_store example_tasks 0]
  obtain res h' where
    r: "schedule_tasks_with_priority example_store example_tasks 0 = Some (res, h')"
    and d: "\<forall>out. res = Inr out \<longrightarrow>
              (\<forall>t\<in>set out. \<exists>f. finish_time (h' t) = Some f \<and> f \<le> deadline (h' t))"
    by blast
  from r have e: "res = Inr [0, 1, 2, 3, 5]" "h' = example_scheduled"
    by (simp_all add: example_schedule)
  with d have "\<exists>f. finish_time (example_scheduled 3) = Some f \<and> f \<le> deadline (example_scheduled 3)"
    by simp
  moreover have "map (\<lambda>t. finish_time (example_scheduled t)) [0, 1, 2, 3, 5]
     = [Some 40, Some 45, Some 50, Some 60, Some 70]"
    "map (\<lambda>t. deadline (example_scheduled t)) [0, 1, 2, 3, 5] = [50, 55, 60, 60, 70]"
    by (simp_all add: example_scheduled_def example_store_def)
  ultimately show ?thesis using example_schedule by simp
qed



section \<open>The claim about termination\<close>

text \<open>
  C10: \<^verbatim>\<open>topological_sort_with_priority\<close> terminates on every task list, cyclic or not.
  The set-up before the loop raises nothing; the loop leaves with an empty pool after at
  most as many iterations as the list has tasks, each iteration emitting one task; and the
  function then raises the cycle error or returns the emitted list. If no object is in the
  input twice, no object is emitted twice: every task enters the pool at most once.
\<close>

theorem topological_sort_terminates:
  "\<exists>graph s0 n s.
     initial_state h tasks alpha = Inr (graph, s0) \<and>
     n \<le> length tasks \<and>
     run_iterations n (loop_body h alpha (task_map_of h tasks) graph) s0 = Some s \<and>
     zero_in_degree s = [] \<and>
     kahn_loop h alpha (task_map_of h tasks) graph s0 = Some (Inr s) \<and>
     length (sorted_list s) = n \<and>
     (distinct tasks \<longrightarrow> distinct (sorted_list s)) \<and>
     (topological_sort_with_priority h tasks alpha = Some (Inl CycleError) \<or>
      topological_sort_with_priority h tasks alpha = Some (Inr (sorted_list s)))"
proof -
  let ?K = "task_ids h tasks"
  from topological_sort_run[of h tasks "\<lambda>_ _ _. True" alpha]
  obtain n I srt where n: "n \<le> length tasks" "length srt = n"
    and g: "gen_inv h tasks [] I srt"
    and run: "run_iterations n (loop_body h alpha (task_map_of h tasks) (dict_of ?K (succs_of h tasks)))
        (kstate ?K (sort_key (\<lambda>t. effective_deadline alpha (h t))
               (filter (\<lambda>t. indeg_of h ?K tasks (task_id (h t)) = 0) tasks))
           (indeg_of h ?K tasks) []) = Some (kstate ?K [] I srt)"
    and loop: "kahn_loop h alpha (task_map_of h tasks) (dict_of ?K (succs_of h tasks))
        (kstate ?K (sort_key (\<lambda>t. effective_deadline alpha (h t))
               (filter (\<lambda>t. indeg_of h ?K tasks (task_id (h t)) = 0) tasks))
           (indeg_of h ?K tasks) []) = Some (Inr (kstate ?K [] I srt))"
    and r: "topological_sort_with_priority h tasks alpha =
             Some (if length srt \<noteq> length tasks then Inl CycleError else Inr srt)"
    by blast
  from g have d: "distinct tasks \<longrightarrow> distinct srt" by (simp add: gen_inv_def)
  have z: "zero_in_degree (kstate ?K [] I srt) = []" by (simp add: kstate_def)
  from r have "topological_sort_with_priority h tasks alpha = Some (Inl CycleError) \<or>
      topological_sort_with_priority h tasks alpha = Some (Inr srt)"
    by (cases "length srt = length tasks") simp_all
  with n d z run loop initial_state_eq[of h tasks alpha] show ?thesis
    by (intro exI[of _ "dict_of ?K (succs_of h tasks)"] exI[of _ n]
          exI[of _ "kstate ?K [] I srt"]
          exI[of _ "kstate ?K (sort_key (\<lambda>t. effective_deadline alpha (h t))
               (filter (\<lambda>t. indeg_of h ?K tasks (task_id (h t)) = 0) tasks))
           (indeg_of h ?K tasks) []"])
       (simp add: sorted_list_kstate)
qed

theorem topological_sort_terminates_witness:
  "topological_sort_with_priority cyclic_store [0, 1, 2] 0 = Some (Inl CycleError) \<and>
   (\<exists>graph s0 s.
      initial_state cyclic_store [0, 1, 2] 0 = Inr (graph, s0) \<and>
      run_iterations 1 (loop_body cyclic_store 0 (task_map_of cyclic_store [0, 1, 2]) graph) s0 = Some s \<and>
      kahn_loop cyclic_store 0 (task_map_of cyclic_store [0, 1, 2]) graph s0 = Some (Inr s) \<and>
      zero_in_degree s = [] \<and> sorted_list s = [2])"
proof -
  from topological_sort_terminates[of cyclic_store "[0, 1, 2]" 0]
  obtain graph s0 n s where
    i: "initial_state cyclic_store [0, 1, 2] 0 = Inr (graph, s0)"
    and run: "run_iterations n (loop_body cyclic_store 0 (task_map_of cyclic_store [0, 1, 2]) graph) s0 = Some s"
    and z: "zero_in_degree s = []"
    and loop: "kahn_loop cyclic_store 0 (task_map_of cyclic_store [0, 1, 2]) graph s0 = Some (Inr s)"
    and len: "length (sorted_list s) = n"
    by blast
  from cyclic_loop have "sorted_list s = [2]"
    by (simp only: i loop sum.case prod.case option.case)
  with len have "n = 1" by simp
  with i run z loop \<open>sorted_list s = [2]\<close> cyclic_order show ?thesis by blast
qed

section \<open>The time windows along the order\<close>

lemma foldr_assign_fold:
  "foldr assign_times out s = fold assign_times (rev out) s"
  by (simp add: foldr_conv_fold)

lemma foldr_assign_cursor:
  "xs \<noteq> [] \<Longrightarrow>
   start_time (fst (foldr assign_times xs (h, c)) (hd xs))
     = Some (snd (foldr assign_times xs (h, c)))"
proof (cases xs)
  case Nil
  then show "xs \<noteq> [] \<Longrightarrow> ?thesis" by simp
next
  case (Cons y ys)
  obtain h1 c1 where r: "foldr assign_times ys (h, c) = (h1, c1)" by (cases "foldr assign_times ys (h, c)")
  show ?thesis unfolding Cons by (simp add: r assign_times_eq)
qed

lemma foldr_assign_Cons:
  assumes "foldr assign_times xs (h, c) = (h1, c1)"
  shows "fst (foldr assign_times (x # xs) (h, c))
           = h1(x := (h1 x)\<lparr>finish_time := Some (min c1 (deadline (h x))),
                            start_time := Some (min c1 (deadline (h x)) - duration (h x))\<rparr>)"
proof -
  have "deadline (h1 x) = deadline (h x)" "duration (h1 x) = duration (h x)"
    using fold_assign_static(2,3)[of "rev xs" h c x] assms
    by (simp_all add: foldr_assign_fold)
  then show ?thesis by (simp add: assms assign_times_eq)
qed

lemma foldr_assign_adjacent:
  "distinct out \<Longrightarrow> Suc i < length out \<Longrightarrow>
   finish_time (fst (foldr assign_times out (h, c)) (out ! i))
     = Some (min (the (start_time (fst (foldr assign_times out (h, c)) (out ! Suc i))))
                 (deadline (h (out ! i))))"
proof (induction out arbitrary: i)
  case Nil
  then show ?case by simp
next
  case (Cons x xs)
  obtain h1 c1 where r: "foldr assign_times xs (h, c) = (h1, c1)" by (cases "foldr assign_times xs (h, c)")
  note h' = foldr_assign_Cons[OF r, of x]
  from Cons.prems have x: "x \<notin> set xs" and d: "distinct xs" and ne: "xs \<noteq> []" by auto
  show ?case
  proof (cases i)
    case 0
    from ne have "hd xs \<in> set xs" by simp
    with x have "hd xs \<noteq> x" by auto
    moreover from foldr_assign_cursor[OF ne, of h c] r have "start_time (h1 (hd xs)) = Some c1" by simp
    moreover from ne have "xs ! 0 = hd xs" by (simp add: hd_conv_nth)
    ultimately show ?thesis using 0 unfolding h' by simp
  next
    case (Suc j)
    with Cons.prems have j: "Suc j < length xs" by simp
    then have "xs ! j \<in> set xs" "xs ! Suc j \<in> set xs" by simp_all
    with x have "xs ! j \<noteq> x" "xs ! Suc j \<noteq> x" by auto
    with Cons.IH[OF d j] r Suc show ?thesis unfolding h' by simp
  qed
qed

lemma foldr_assign_timed:
  "t \<in> set out \<Longrightarrow> timed (fst (foldr assign_times out (h, c)) t)"
  using fold_assign_timed[of "{}" h "rev out" c] by (simp add: foldr_assign_fold)

lemma timed_start_le_finish:
  assumes "timed a" "0 \<le> duration a"
  shows "the (start_time a) \<le> the (finish_time a)"
  using assms unfolding timed_def by auto

lemma foldr_assign_ordered:
  assumes dur: "\<forall>t\<in>set out. 0 \<le> duration (h t)"
  shows "distinct out \<Longrightarrow> i < j \<Longrightarrow> j < length out \<Longrightarrow>
   the (finish_time (fst (foldr assign_times out (h, c)) (out ! i)))
     \<le> the (start_time (fst (foldr assign_times out (h, c)) (out ! j)))"
proof (induction "j - i" arbitrary: j)
  case 0
  then show ?case by simp
next
  case (Suc d)
  let ?h = "fst (foldr assign_times out (h, c))"
  show ?case
  proof (cases "j = Suc i")
    case True
    with Suc.prems have "Suc i < length out" by simp
    from foldr_assign_adjacent[OF Suc.prems(1) this, of h c] True show ?thesis by simp
  next
    case False
    with Suc.prems Suc.hyps(2) obtain j' where j': "j = Suc j'" "i < j'" "j' < length out" "d = j' - i"
      by (cases j) auto
    from Suc.hyps(1)[OF j'(4) Suc.prems(1) j'(2,3)]
    have 1: "the (finish_time (?h (out ! i))) \<le> the (start_time (?h (out ! j')))" .
    have in': "out ! j' \<in> set out" using j'(3) by simp
    have "timed (?h (out ! j'))" by (rule foldr_assign_timed[OF in'])
    moreover have "duration (?h (out ! j')) = duration (h (out ! j'))"
      using fold_assign_static(3)[of "rev out" h c] by (simp add: foldr_assign_fold)
    ultimately have 2: "the (start_time (?h (out ! j'))) \<le> the (finish_time (?h (out ! j')))"
      using dur in' by (intro timed_start_le_finish) simp_all
    from Suc.prems j'(1) have "Suc j' < length out" by simp
    from foldr_assign_adjacent[OF Suc.prems(1) this, of h c]
    have 3: "the (finish_time (?h (out ! j'))) \<le> the (start_time (?h (out ! j)))"
      unfolding j'(1) by simp
    from 1 2 3 show ?thesis by linarith
  qed
qed

lemma schedule_Inr:
  assumes "schedule_tasks_with_priority h tasks alpha = Some (Inr out, h')"
  shows "h' = fst (foldr assign_times out (h, Max (set (map (\<lambda>t. deadline (h t)) out))))"
    and "topological_sort_with_priority h (filter (\<lambda>t. status (h t) \<in> valid_statuses) tasks) alpha
           = Some (Inr out)"
    and "set out \<subseteq> set (filter (\<lambda>t. status (h t) \<in> valid_statuses) tasks)"
    and "distinct tasks \<Longrightarrow> distinct out"
proof -
  from schedule_cases[of h tasks alpha] assms
  obtain out' where o: "topological_sort_with_priority h (filter (\<lambda>t. status (h t) \<in> valid_statuses) tasks) alpha
           = Some (Inr out')"
    "set out' \<subseteq> set (filter (\<lambda>t. status (h t) \<in> valid_statuses) tasks)"
    "distinct (filter (\<lambda>t. status (h t) \<in> valid_statuses) tasks) \<longrightarrow> distinct out'"
    "schedule_tasks_with_priority h tasks alpha =
       Some (Inr out', fst (fold assign_times (rev out')
                             (h, Max (set (map (\<lambda>t. deadline (h t)) out')))))"
    by auto
  from o(4) assms have e: "out' = out"
    "h' = fst (fold assign_times (rev out) (h, Max (set (map (\<lambda>t. deadline (h t)) out))))"
    by simp_all
  from e(2) show "h' = fst (foldr assign_times out (h, Max (set (map (\<lambda>t. deadline (h t)) out))))"
    by (simp add: foldr_assign_fold)
  from o(1) e(1) show "topological_sort_with_priority h (filter (\<lambda>t. status (h t) \<in> valid_statuses) tasks) alpha
           = Some (Inr out)" by simp
  from o(2) e(1) show "set out \<subseteq> set (filter (\<lambda>t. status (h t) \<in> valid_statuses) tasks)" by simp
  from o(3) e(1) show "distinct out" if "distinct tasks" using that by simp
qed

lemma schedule_times:
  assumes s: "schedule_tasks_with_priority h tasks alpha = Some (Inr out, h')"
    and t: "t \<in> set out"
  shows "timed (h' t)" and "deadline (h' t) = deadline (h t)" and "duration (h' t) = duration (h t)"
proof -
  note h' = schedule_Inr(1)[OF s]
  show "timed (h' t)" unfolding h' by (rule foldr_assign_timed[OF t])
  show "deadline (h' t) = deadline (h t)" "duration (h' t) = duration (h t)"
    unfolding h' foldr_assign_fold by (rule fold_assign_static)+
qed

text \<open>
  C5: when \<^verbatim>\<open>schedule_tasks_with_priority\<close> returns for an input that holds no object twice
  and the durations of the returned tasks are not negative, the windows of the returned
  tasks do not overlap: a task finishes no later than every task after it in the returned
  order starts, and its finish time is the smaller of its own deadline and the start time
  of the task right after it.
\<close>

theorem scheduled_windows_do_not_overlap:
  assumes "schedule_tasks_with_priority h tasks alpha = Some (Inr out, h')"
    and "distinct tasks"
    and "\<forall>t\<in>set out. 0 \<le> duration (h t)"
  shows "(\<forall>i j. i < j \<and> j < length out \<longrightarrow>
            (\<exists>f s. finish_time (h' (out ! i)) = Some f \<and> start_time (h' (out ! j)) = Some s \<and> f \<le> s)) \<and>
         (\<forall>i. Suc i < length out \<longrightarrow>
            (\<exists>f s. finish_time (h' (out ! i)) = Some f \<and> start_time (h' (out ! Suc i)) = Some s \<and>
                   f = min s (deadline (h' (out ! i)))))"
proof -
  note h' = schedule_Inr(1)[OF assms(1)]
  have d: "distinct out" by (rule schedule_Inr(4)[OF assms(1,2)])
  have set: "\<exists>f s. finish_time (h' t) = Some f \<and> start_time (h' t) = Some s" if "t \<in> set out" for t
    using schedule_times(1)[OF assms(1) that] unfolding timed_def by blast
  have 1: "\<exists>f s. finish_time (h' (out ! i)) = Some f \<and> start_time (h' (out ! j)) = Some s \<and> f \<le> s"
    if "i < j" "j < length out" for i j
  proof -
    from that have "out ! i \<in> set out" "out ! j \<in> set out" by simp_all
    from set[OF this(1)] set[OF this(2)] obtain f s where
      fs: "finish_time (h' (out ! i)) = Some f" "start_time (h' (out ! j)) = Some s" by blast
    from foldr_assign_ordered[OF assms(3) d that, of "Max (set (map (\<lambda>t. deadline (h t)) out))"]
    have "f \<le> s" unfolding h'[symmetric] fs by simp
    with fs show ?thesis by blast
  qed
  have 2: "\<exists>f s. finish_time (h' (out ! i)) = Some f \<and> start_time (h' (out ! Suc i)) = Some s \<and>
                   f = min s (deadline (h' (out ! i)))"
    if "Suc i < length out" for i
  proof -
    from that have in': "out ! i \<in> set out" "out ! Suc i \<in> set out" by simp_all
    from set[OF in'(2)] obtain s where s: "start_time (h' (out ! Suc i)) = Some s" by blast
    from foldr_assign_adjacent[OF d that, of h "Max (set (map (\<lambda>t. deadline (h t)) out))"]
    have "finish_time (h' (out ! i)) = Some (min s (deadline (h (out ! i))))"
      unfolding h'[symmetric] s by simp
    with s schedule_times(2)[OF assms(1) in'(1)] show ?thesis by simp
  qed
  from 1 2 show ?thesis by blast
qed

theorem scheduled_windows_do_not_overlap_witness:
  "schedule_tasks_with_priority example_store example_tasks 0
     = Some (Inr [0, 1, 2, 3, 5], example_scheduled) \<and>
   distinct example_tasks \<and>
   map (\<lambda>t. duration (example_store t)) [0, 1, 2, 3, 5] = [10, 5, 5, 10, 5] \<and>
   map (\<lambda>t. (start_time (example_scheduled t), finish_time (example_scheduled t))) [0, 1, 2, 3, 5]
     = [(Some 30, Some 40), (Some 40, Some 45), (Some 45, Some 50), (Some 50, Some 60), (Some 65, Some 70)] \<and>
   (\<exists>f s. finish_time (example_scheduled 0) = Some f \<and> start_time (example_scheduled 5) = Some s \<and> f \<le> s) \<and>
   (\<exists>f s. finish_time (example_scheduled 3) = Some f \<and> start_time (example_scheduled 5) = Some s \<and>
          f = min s (deadline (example_scheduled 3)))"
proof -
  have d: "distinct example_tasks" by (simp add: example_tasks_def)
  have n: "\<forall>t\<in>set [0, 1, 2, 3, 5]. 0 \<le> duration (example_store t)"
    by (simp add: example_store_def)
  note w = scheduled_windows_do_not_overlap[OF example_schedule d n]
  from w have "0 < (4::nat) \<and> 4 < length [0::nat, 1, 2, 3, 5] \<longrightarrow>
      (\<exists>f s. finish_time (example_scheduled ([0, 1, 2, 3, 5] ! 0)) = Some f \<and>
             start_time (example_scheduled ([0, 1, 2, 3, 5] ! 4)) = Some s \<and> f \<le> s)"
    by blast
  then have a: "\<exists>f s. finish_time (example_scheduled 0) = Some f \<and> start_time (example_scheduled 5) = Some s \<and> f \<le> s"
    by simp
  from w have "Suc 3 < length [0::nat, 1, 2, 3, 5] \<longrightarrow>
      (\<exists>f s. finish_time (example_scheduled ([0, 1, 2, 3, 5] ! 3)) = Some f \<and>
             start_time (example_scheduled ([0, 1, 2, 3, 5] ! Suc 3)) = Some s \<and>
             f = min s (deadline (example_scheduled ([0, 1, 2, 3, 5] ! 3))))"
    by blast
  then have b: "\<exists>f s. finish_time (example_scheduled 3) = Some f \<and> start_time (example_scheduled 5) = Some s \<and>
          f = min s (deadline (example_scheduled 3))"
    by simp
  have "map (\<lambda>t. duration (example_store t)) [0, 1, 2, 3, 5] = [10, 5, 5, 10, 5]"
    "map (\<lambda>t. (start_time (example_scheduled t), finish_time (example_scheduled t))) [0, 1, 2, 3, 5]
     = [(Some 30, Some 40), (Some 40, Some 45), (Some 45, Some 50), (Some 50, Some 60), (Some 65, Some 70)]"
    by (simp_all add: example_store_def example_scheduled_def)
  with a b d example_schedule show ?thesis by blast
qed

section \<open>Unique ids: the in-degrees count the waiting dependencies\<close>

lemma sum_list_unique_key:
  "distinct (map k xs) \<Longrightarrow> x \<in> set xs \<Longrightarrow>
   sum_list (map (\<lambda>y. if k y = k x then g y else (0::nat)) xs) = g x"
proof (induction xs)
  case Nil
  then show ?case by simp
next
  case (Cons a xs)
  show ?case
  proof (cases "x = a")
    case True
    with Cons.prems have "k a \<notin> k ` set xs" by simp
    then have "\<forall>y\<in>set xs. k y \<noteq> k a" by (metis imageI)
    then have "sum_list (map (\<lambda>y. if k y = k a then g y else 0) xs) = 0"
      by (induction xs) auto
    with True show ?thesis by simp
  next
    case False
    with Cons.prems have "x \<in> set xs" "k a \<noteq> k x" by auto
    with Cons show ?thesis by simp
  qed
qed

lemma count_list_const_map:
  "count_list (map (\<lambda>_. c) ys) y = (if y = c then length ys else 0)"
  by (induction ys) auto

lemma count_list_succs_of:
  "count_list (succs_of h tasks d) i =
   sum_list (map (\<lambda>t. if task_id (h t) = i then count_list (dependencies (h t)) d else 0) tasks)"
proof -
  have "count_list (map (\<lambda>_. task_id (h t)) (filter (\<lambda>x. x = d) (dependencies (h t)))) i
        = (if task_id (h t) = i then count_list (dependencies (h t)) d else 0)" for t
    by (auto simp: count_list_const_map count_list_eq_length_filter intro: arg_cong[where f=length] filter_cong)
  then show ?thesis
    by (simp add: succs_of_def count_list_concat comp_def)
qed

lemma count_list_succs_of_unique:
  assumes "distinct (map (\<lambda>t. task_id (h t)) tasks)" "t \<in> set tasks"
  shows "count_list (succs_of h tasks d) (task_id (h t)) = count_list (dependencies (h t)) d"
  unfolding count_list_succs_of
  by (rule sum_list_unique_key[OF assms])

lemma sum_count_list:
  "finite K \<Longrightarrow> (\<Sum>d\<in>K. count_list xs d) = length (filter (\<lambda>x. x \<in> K) xs)"
proof (induction xs)
  case Nil
  then show ?case by simp
next
  case (Cons x xs)
  have "(\<Sum>d\<in>K. count_list (x # xs) d) = (\<Sum>d\<in>K. count_list xs d + (if x = d then 1 else 0))"
    by (intro sum.cong) auto
  also have "\<dots> = (\<Sum>d\<in>K. count_list xs d) + (\<Sum>d\<in>K. if x = d then 1 else 0)"
    by (rule sum.distrib)
  also have "(\<Sum>d\<in>K. if x = d then 1 else 0) = (if x \<in> K then 1 else (0::nat))"
    using Cons.prems by simp
  finally show ?case using Cons by simp
qed

lemma length_concat_unique_key:
  "distinct (map k xs) \<Longrightarrow> x \<in> set xs \<Longrightarrow>
   length (concat (map (\<lambda>y. if k y = k x then g y else []) xs)) = length (g x)"
  using sum_list_unique_key[of k xs x "\<lambda>y. length (g y)"]
  by (simp add: length_concat comp_def if_distrib[of length] cong: if_cong)

lemma indeg_of_unique:
  assumes "distinct (map (\<lambda>t. task_id (h t)) tasks)" "t \<in> set tasks"
  shows "indeg_of h K tasks (task_id (h t)) = int (length (filter (\<lambda>x. x \<in> K) (dependencies (h t))))"
  unfolding indeg_of_def
  using length_concat_unique_key[OF assms, of "\<lambda>t. filter (\<lambda>x. x \<in> K) (dependencies (h t))"]
  by simp

lemma indeg_of_sum:
  assumes u: "distinct (map (\<lambda>t. task_id (h t)) tasks)" and t: "t \<in> set tasks"
  shows "indeg_of h (task_ids h tasks) tasks (task_id (h t)) =
         int (\<Sum>u\<in>set tasks. count_list (succs_of h tasks (task_id (h u))) (task_id (h t)))"
proof -
  from u have inj: "inj_on (\<lambda>t. task_id (h t)) (set tasks)" by (simp add: distinct_map)
  have "(\<Sum>u\<in>set tasks. count_list (succs_of h tasks (task_id (h u))) (task_id (h t)))
        = (\<Sum>u\<in>set tasks. count_list (dependencies (h t)) (task_id (h u)))"
    by (intro sum.cong refl count_list_succs_of_unique[OF u t])
  also have "\<dots> = (\<Sum>d\<in>task_ids h tasks. count_list (dependencies (h t)) d)"
    unfolding task_ids_def by (simp add: sum.reindex[OF inj])
  also have "\<dots> = length (filter (\<lambda>x. x \<in> task_ids h tasks) (dependencies (h t)))"
    by (intro sum_count_list) (simp add: task_ids_def)
  finally show ?thesis by (simp add: indeg_of_unique[OF u t])
qed

lemma set_succs_of_iff:
  "i \<in> set (succs_of h tasks d) \<longleftrightarrow> (\<exists>t\<in>set tasks. task_id (h t) = i \<and> d \<in> set (dependencies (h t)))"
  by (auto simp: succs_of_def)

lemma dep_rel_iff:
  "(d, i) \<in> dep_rel h tasks \<longleftrightarrow> d \<in> task_ids h tasks \<and> i \<in> set (succs_of h tasks d)"
  by (simp add: dep_rel_def set_succs_of_iff)

lemma index_of_nth:
  "distinct xs \<Longrightarrow> k < length xs \<Longrightarrow> index_of xs (xs ! k) = k"
proof (induction xs arbitrary: k)
  case Nil
  then show ?case by simp
next
  case (Cons a xs)
  show ?case
  proof (cases k)
    case 0
    then show ?thesis by simp
  next
    case (Suc j)
    with Cons.prems have "j < length xs" "xs ! j \<in> set xs" "a \<notin> set xs" by auto
    then have "xs ! j \<noteq> a" by auto
    with Cons Suc show ?thesis by simp
  qed
qed

lemma acct_inv_init:
  assumes u: "distinct (map (\<lambda>t. task_id (h t)) tasks)"
  shows "acct_inv h tasks
           (sort_key key (filter (\<lambda>t. indeg_of h (task_ids h tasks) tasks (task_id (h t)) = 0) tasks))
           (indeg_of h (task_ids h tasks) tasks) []"
  unfolding acct_inv_def
proof (intro conjI ballI allI impI)
  fix t assume "t \<in> set tasks"
  from indeg_of_sum[OF u this]
  show "indeg_of h (task_ids h tasks) tasks (task_id (h t)) =
        int (\<Sum>u\<in>set tasks - set []. count_list (succs_of h tasks (task_id (h u))) (task_id (h t)))"
    by simp
next
  fix t assume "t \<in> set tasks" "indeg_of h (task_ids h tasks) tasks (task_id (h t)) = 0"
  then show "t \<in> set (sort_key key (filter (\<lambda>t. indeg_of h (task_ids h tasks) tasks (task_id (h t)) = 0) tasks)) \<union> set []"
    by simp
next
  fix k :: nat and u assume "k < length ([] :: ref list)"
  then show "u \<in> set (take k [])" by simp
qed

lemma acct_inv_step:
  assumes u: "distinct (map (\<lambda>t. task_id (h t)) tasks)"
    and g: "gen_inv h tasks (cur # rest) I srt"
    and a: "acct_inv h tasks (cur # rest) I srt"
  shows "acct_inv h tasks (next_pool h alpha (task_map_of h tasks) (succs_of h tasks) cur rest I)
           (next_indeg h (succs_of h tasks) cur I) (srt @ [cur])"
proof -
  let ?G = "succs_of h tasks" and ?tm = "task_map_of h tasks"
  let ?ns = "?G (task_id (h cur))"
  let ?I = "next_indeg h ?G cur I"
  define cnt where "cnt u i = count_list (?G (task_id (h u))) i" for u i
  define z' where "z' = next_pool h alpha ?tm ?G cur rest I"
  define new where "new = map (\<lambda>n. the (?tm n)) (newly_ready I ?ns)"
  have pool: "set z' = set rest \<union> set new"
    by (simp add: z'_def new_def next_pool_def)
  have I': "?I i = I i - int (cnt cur i)" for i
    by (simp add: next_indeg_def cnt_def)
  from u have dt: "distinct tasks" by (simp add: distinct_map)
  from g have cur: "cur \<in> set tasks" and sub: "set srt \<subseteq> set tasks"
    and d: "distinct (srt @ cur # rest)" and le0: "I (task_id (h cur)) \<le> 0"
    using dt by (simp_all add: gen_inv_def)
  from d have notin: "cur \<notin> set srt" by simp
  from a have A: "\<And>t. t \<in> set tasks \<Longrightarrow> I (task_id (h t)) = int (\<Sum>u\<in>set tasks - set srt. cnt u (task_id (h t)))"
    and R: "\<And>t. t \<in> set tasks \<Longrightarrow> I (task_id (h t)) = 0 \<Longrightarrow> t \<in> set (cur # rest) \<union> set srt"
    and O: "\<And>k u. k < length srt \<Longrightarrow> u \<in> set tasks \<Longrightarrow>
               task_id (h (srt ! k)) \<in> set (?G (task_id (h u))) \<Longrightarrow> u \<in> set (take k srt)"
    unfolding acct_inv_def cnt_def by blast+
  have split: "(\<Sum>u\<in>set tasks - set srt. cnt u i) = cnt cur i + (\<Sum>u\<in>set tasks - set (srt @ [cur]). cnt u i)" for i
  proof -
    have "set tasks - set (srt @ [cur]) = (set tasks - set srt) - {cur}" by auto
    moreover have "cur \<in> set tasks - set srt" using cur notin by simp
    ultimately show ?thesis by (simp add: sum.remove)
  qed
  have A': "?I (task_id (h t)) = int (\<Sum>u\<in>set tasks - set (srt @ [cur]). cnt u (task_id (h t)))"
    if "t \<in> set tasks" for t
    unfolding I' A[OF that] split by simp
  have R': "t \<in> set z' \<union> set (srt @ [cur])" if t: "t \<in> set tasks" and z: "?I (task_id (h t)) = 0" for t
  proof (cases "I (task_id (h t)) = 0")
    case True
    from R[OF t True] show ?thesis by (auto simp: pool)
  next
    case False
    from z have eq: "I (task_id (h t)) = int (count_list ?ns (task_id (h t)))"
      unfolding I' cnt_def by simp
    with False have pos: "0 < count_list ?ns (task_id (h t))" by simp
    from newly_ready_complete[where I=I and ns="?ns" and n="task_id (h t)", OF pos eq] have "task_id (h t) \<in> set (newly_ready I ?ns)" .
    then have "the (?tm (task_id (h t))) \<in> set new" unfolding new_def set_map by (rule imageI)
    moreover have "the (?tm (task_id (h t))) = t" using task_map_of_distinct[OF u t] by simp
    ultimately show ?thesis by (simp add: pool)
  qed
  have last: "v \<in> set srt" if v: "v \<in> set tasks" and e: "task_id (h cur) \<in> set (?G (task_id (h v)))" for v
  proof (rule ccontr)
    assume "v \<notin> set srt"
    with v have in': "v \<in> set tasks - set srt" by simp
    from e have "cnt v (task_id (h cur)) \<noteq> 0" unfolding cnt_def count_list_0_iff by simp
    then have "0 < cnt v (task_id (h cur))" by simp
    also have "\<dots> \<le> (\<Sum>u\<in>set tasks - set srt. cnt u (task_id (h cur)))"
      using in' by (intro member_le_sum) simp_all
    finally have "0 < int (\<Sum>u\<in>set tasks - set srt. cnt u (task_id (h cur)))"
      by (simp only: of_nat_0_less_iff)
    then have "0 < I (task_id (h cur))" by (simp only: A[OF cur])
    with le0 show False by simp
  qed
  have O': "v \<in> set (take k (srt @ [cur]))"
    if k: "k < length (srt @ [cur])" and v: "v \<in> set tasks"
      and e: "task_id (h ((srt @ [cur]) ! k)) \<in> set (?G (task_id (h v)))" for k v
  proof (cases "k < length srt")
    case True
    with e have "task_id (h (srt ! k)) \<in> set (?G (task_id (h v)))" by (simp add: nth_append)
    from O[OF True v this] True show ?thesis by simp
  next
    case False
    with k have k': "k = length srt" by simp
    with e have "task_id (h cur) \<in> set (?G (task_id (h v)))" by simp
    from last[OF v this] k' show ?thesis by simp
  qed
  show ?thesis
    unfolding acct_inv_def z'_def[symmetric] cnt_def[symmetric]
    using A' R' O' by blast
qed

lemma topological_sort_unique:
  assumes u: "distinct (map (\<lambda>t. task_id (h t)) tasks)"
  shows "\<exists>I srt. gen_inv h tasks [] I srt \<and> acct_inv h tasks [] I srt \<and>
           topological_sort_with_priority h tasks alpha =
             Some (if length srt \<noteq> length tasks then Inl CycleError else Inr srt)"
proof -
  from topological_sort_run[where Q="acct_inv h tasks" and h=h and tasks=tasks and alpha=alpha,
      OF acct_inv_step[OF u] acct_inv_init[OF u]]
  show ?thesis by blast
qed

lemma final_order:
  assumes a: "acct_inv h tasks z I srt" and sub: "set srt \<subseteq> set tasks"
    and t: "t \<in> set srt" and d: "d \<in> set tasks"
    and e: "task_id (h d) \<in> set (dependencies (h t))"
  shows "precedes srt d t"
proof -
  from t obtain k where k: "k < length srt" "srt ! k = t" by (auto simp: in_set_conv_nth)
  from t sub have "t \<in> set tasks" by blast
  with e k(2) have "task_id (h (srt ! k)) \<in> set (succs_of h tasks (task_id (h d)))"
    unfolding set_succs_of_iff by blast
  with a k(1) d have "d \<in> set (take k srt)" unfolding acct_inv_def by blast
  then obtain i where "i < length (take k srt)" "take k srt ! i = d" by (auto simp: in_set_conv_nth)
  then have "i < k" "srt ! i = d" by simp_all
  with k show ?thesis unfolding precedes_def by blast
qed

lemma final_complete:
  assumes g: "gen_inv h tasks [] I srt" and a: "acct_inv h tasks [] I srt"
    and ac: "acyclic (dep_rel h tasks)"
  shows "set tasks \<subseteq> set srt"
proof (rule ccontr)
  assume "\<not> set tasks \<subseteq> set srt"
  then have ne: "(\<lambda>t. task_id (h t)) ` (set tasks - set srt) \<noteq> {}" by auto
  have "dep_rel h tasks \<subseteq> task_ids h tasks \<times> task_ids h tasks"
    by (auto simp: dep_rel_def task_ids_def)
  moreover have "finite (task_ids h tasks \<times> task_ids h tasks)" by (simp add: task_ids_def)
  ultimately have "finite (dep_rel h tasks)" by (rule finite_subset)
  from finite_acyclic_wf[OF this ac] have "wf (dep_rel h tasks)" .
  from wfE_min[OF this] ne obtain m where
    m: "m \<in> (\<lambda>t. task_id (h t)) ` (set tasks - set srt)"
    and min: "\<And>y. (y, m) \<in> dep_rel h tasks \<Longrightarrow> y \<notin> (\<lambda>t. task_id (h t)) ` (set tasks - set srt)"
    by (metis all_not_in_conv)
  from m obtain t where t: "t \<in> set tasks" "t \<notin> set srt" "m = task_id (h t)" by blast
  from a t(1,2) have nz: "I (task_id (h t)) \<noteq> 0" unfolding acct_inv_def by auto
  from a t(1) have "I (task_id (h t)) =
      int (\<Sum>u\<in>set tasks - set srt. count_list (succs_of h tasks (task_id (h u))) (task_id (h t)))"
    unfolding acct_inv_def by blast
  with nz have "(\<Sum>u\<in>set tasks - set srt. count_list (succs_of h tasks (task_id (h u))) (task_id (h t))) \<noteq> 0"
    by (metis of_nat_0)
  then obtain u where u: "u \<in> set tasks - set srt"
    "count_list (succs_of h tasks (task_id (h u))) (task_id (h t)) \<noteq> 0"
    by (meson sum.neutral)
  from u(2) have "task_id (h t) \<in> set (succs_of h tasks (task_id (h u)))"
    by (simp add: count_list_0_iff)
  moreover from u(1) have "task_id (h u) \<in> task_ids h tasks" by (simp add: task_ids_def)
  ultimately have "(task_id (h u), m) \<in> dep_rel h tasks" unfolding dep_rel_iff t(3) by simp
  from min[OF this] u(1) show False by blast
qed

lemma final_acyclic:
  assumes u: "distinct (map (\<lambda>t. task_id (h t)) tasks)"
    and a: "acct_inv h tasks z I srt" and eq: "set srt = set tasks" and ds: "distinct srt"
  shows "acyclic (dep_rel h tasks)"
proof -
  let ?ids = "map (\<lambda>t. task_id (h t)) srt"
  from u have inj: "inj_on (\<lambda>t. task_id (h t)) (set tasks)" by (simp add: distinct_map)
  with ds eq have di: "distinct ?ids" by (simp add: distinct_map)
  have "dep_rel h tasks \<subseteq> inv_image less_than (index_of ?ids)"
  proof
    fix p assume p: "p \<in> dep_rel h tasks"
    obtain d i where di': "p = (d, i)" by (cases p)
    with p obtain dt t where dt: "dt \<in> set tasks" "task_id (h dt) = d"
      and t: "t \<in> set tasks" "task_id (h t) = i" "d \<in> set (dependencies (h t))"
      by (auto simp: dep_rel_def task_ids_def)
    from t(1) eq have "t \<in> set srt" by simp
    from final_order[OF a _ this dt(1)] eq t(3) dt(2) have "precedes srt dt t" by simp
    then obtain x y where xy: "x < y" "y < length srt" "srt ! x = dt" "srt ! y = t"
      unfolding precedes_def by blast
    then have "?ids ! x = d" "?ids ! y = i" "x < length ?ids" "y < length ?ids"
      using dt(2) t(2) by simp_all
    with index_of_nth[OF di, of x] index_of_nth[OF di, of y]
    have "index_of ?ids d = x" "index_of ?ids i = y" by simp_all
    with xy(1) show "p \<in> inv_image less_than (index_of ?ids)" by (simp add: di')
  qed
  then have "wf (dep_rel h tasks)" by (rule wf_subset[OF wf_inv_image[OF wf_less_than]])
  then show ?thesis by (rule wf_acyclic)
qed

lemma topological_sort_unique_cases:
  assumes u: "distinct (map (\<lambda>t. task_id (h t)) tasks)"
  shows "(acyclic (dep_rel h tasks) \<and>
          (\<exists>out. topological_sort_with_priority h tasks alpha = Some (Inr out) \<and>
             mset out = mset tasks \<and>
             (\<forall>t\<in>set tasks. \<forall>d\<in>set tasks.
                task_id (h d) \<in> set (dependencies (h t)) \<longrightarrow> precedes out d t))) \<or>
         (\<not> acyclic (dep_rel h tasks) \<and>
          topological_sort_with_priority h tasks alpha = Some (Inl CycleError))"
proof -
  from topological_sort_unique[OF u, of alpha] obtain I srt where
    g: "gen_inv h tasks [] I srt" and a: "acct_inv h tasks [] I srt"
    and r: "topological_sort_with_priority h tasks alpha =
             Some (if length srt \<noteq> length tasks then Inl CycleError else Inr srt)"
    by blast
  from u have dt: "distinct tasks" by (simp add: distinct_map)
  with g have sub: "set srt \<subseteq> set tasks" and ds: "distinct srt" by (simp_all add: gen_inv_def)
  show ?thesis
  proof (cases "acyclic (dep_rel h tasks)")
    case True
    from final_complete[OF g a True] sub have eq: "set srt = set tasks" by blast
    with ds dt have m: "mset srt = mset tasks" by (simp add: set_eq_iff_mset_eq_distinct)
    then have "length srt = length tasks" by (metis size_mset)
    with r have r': "topological_sort_with_priority h tasks alpha = Some (Inr srt)" by simp
    have "precedes srt d t"
      if "t \<in> set tasks" "d \<in> set tasks" "task_id (h d) \<in> set (dependencies (h t))" for t d
      using final_order[OF a sub _ that(2,3)] that(1) eq by simp
    with True r' m show ?thesis by blast
  next
    case False
    have "length srt \<noteq> length tasks"
    proof
      assume l: "length srt = length tasks"
      from ds dt l have "card (set srt) = card (set tasks)" by (simp add: distinct_card)
      with sub have "set srt = set tasks" by (intro card_subset_eq) simp_all
      from final_acyclic[OF u a this ds] False show False by simp
    qed
    with r False show ?thesis by simp
  qed
qed

section \<open>The claims about ordering and cycles\<close>

lemma example_order_all:
  "topological_sort_with_priority example_store example_tasks 0 = Some (Inr [0, 1, 2, 3, 5, 4])"
  by (simp add: eval_defs kahn_loop.simps example_store_def example_tasks_def)

lemma example_unique_ids: "distinct (map (\<lambda>t. task_id (example_store t)) example_tasks)"
  by (simp add: example_store_def example_tasks_def)

lemma example_acyclic: "acyclic (dep_rel example_store example_tasks)"
proof -
  have "dep_rel example_store example_tasks \<subseteq> {(a, b). a < b}"
    by (auto simp: dep_rel_def example_store_def example_tasks_def split: if_splits)
  with wf_acyclic[OF wf_less] show ?thesis by (rule acyclic_subset)
qed

text \<open>
  C1: for a task list with unique ids whose dependency relation, restricted to the ids of
  the list, is acyclic, \<^verbatim>\<open>topological_sort_with_priority\<close> returns a permutation of the
  list in which every task of the list that another task names as a dependency stands
  strictly before that task.
\<close>

theorem topological_sort_respects_dependencies:
  assumes "distinct (map (\<lambda>t. task_id (h t)) tasks)"
    and "acyclic (dep_rel h tasks)"
  shows "\<exists>out. topological_sort_with_priority h tasks alpha = Some (Inr out) \<and>
           mset out = mset tasks \<and>
           (\<forall>t\<in>set tasks. \<forall>d\<in>set tasks.
              task_id (h d) \<in> set (dependencies (h t)) \<longrightarrow> precedes out d t)"
  using topological_sort_unique_cases[OF assms(1), of alpha] assms(2) by blast

theorem topological_sort_respects_dependencies_witness:
  "distinct (map (\<lambda>t. task_id (example_store t)) example_tasks) \<and>
   acyclic (dep_rel example_store example_tasks) \<and>
   dependencies (example_store 5) = [4, 1] \<and>
   task_id (example_store 3) = 4 \<and> task_id (example_store 0) = 1 \<and>
   topological_sort_with_priority example_store example_tasks 0 = Some (Inr [0, 1, 2, 3, 5, 4]) \<and>
   mset [0, 1, 2, 3, 5, 4] = mset example_tasks \<and>
   precedes [0, 1, 2, 3, 5, 4] 3 (5::nat) \<and> precedes [0, 1, 2, 3, 5, 4] 0 (5::nat)"
proof -
  from topological_sort_respects_dependencies[OF example_unique_ids example_acyclic, of 0]
  obtain out where o: "topological_sort_with_priority example_store example_tasks 0 = Some (Inr out)"
    and m: "mset out = mset example_tasks"
    and p: "\<forall>t\<in>set example_tasks. \<forall>d\<in>set example_tasks.
              task_id (example_store d) \<in> set (dependencies (example_store t)) \<longrightarrow> precedes out d t"
    by blast
  from o have out: "out = [0, 1, 2, 3, 5, 4]" by (simp add: example_order_all)
  have f: "dependencies (example_store 5) = [4, 1]" "task_id (example_store 3) = 4"
    "task_id (example_store 0) = 1"
    by (simp_all add: example_store_def)
  have "5 \<in> set example_tasks" "3 \<in> set example_tasks" "0 \<in> set example_tasks"
    by (simp_all add: example_tasks_def)
  with p f have "precedes out 3 5" "precedes out 0 5" by simp_all
  with m f example_unique_ids example_acyclic example_order_all show ?thesis
    unfolding out by simp
qed

lemma cyclic_unique_ids: "distinct (map (\<lambda>t. task_id (cyclic_store t)) [0, 1, 2])"
  by (simp add: cyclic_store_def)

lemma cyclic_todo: "filter (\<lambda>t. status (cyclic_store t) \<in> valid_statuses) [0, 1, 2] = [0, 1, 2]"
  by (simp add: cyclic_store_def valid_statuses_def)

lemma cyclic_edges:
  "(1, 2) \<in> dep_rel cyclic_store [0, 1, 2]" "(2, 1) \<in> dep_rel cyclic_store [0, 1, 2]"
  by (simp_all add: dep_rel_def task_ids_def cyclic_store_def)

lemma cyclic_not_acyclic: "\<not> acyclic (dep_rel cyclic_store [0, 1, 2])"
proof
  assume a: "acyclic (dep_rel cyclic_store [0, 1, 2])"
  from cyclic_edges have "(1, 1) \<in> (dep_rel cyclic_store [0, 1, 2])\<^sup>+"
    by (rule trancl_into_trancl[OF r_into_trancl])
  with a show False unfolding acyclic_def by blast
qed

text \<open>
  C2: when the tasks with a plannable status have unique ids and their dependency relation
  has a cycle, \<^verbatim>\<open>schedule_tasks_with_priority\<close> raises the cycle error, returns no list, and
  leaves the store as it was: no time field of any task is written.
\<close>

theorem cycle_raises_before_any_write:
  assumes "distinct (map (\<lambda>t. task_id (h t)) (filter (\<lambda>t. status (h t) \<in> valid_statuses) tasks))"
    and "\<not> acyclic (dep_rel h (filter (\<lambda>t. status (h t) \<in> valid_statuses) tasks))"
  shows "schedule_tasks_with_priority h tasks alpha = Some (Inl CycleError, h)"
proof -
  from topological_sort_unique_cases[OF assms(1), of alpha] assms(2)
  have "topological_sort_with_priority h (filter (\<lambda>t. status (h t) \<in> valid_statuses) tasks) alpha
          = Some (Inl CycleError)"
    by blast
  with schedule_cases[of h tasks alpha] show ?thesis by auto
qed

theorem cycle_raises_before_any_write_witness:
  "distinct (map (\<lambda>t. task_id (cyclic_store t)) [0, 1, 2]) \<and>
   filter (\<lambda>t. status (cyclic_store t) \<in> valid_statuses) [0, 1, 2] = [0, 1, 2] \<and>
   (1, 2) \<in> dep_rel cyclic_store [0, 1, 2] \<and> (2, 1) \<in> dep_rel cyclic_store [0, 1, 2] \<and>
   \<not> acyclic (dep_rel cyclic_store [0, 1, 2]) \<and>
   schedule_tasks_with_priority cyclic_store [0, 1, 2] 0 = Some (Inl CycleError, cyclic_store)"
proof -
  have u: "distinct (map (\<lambda>t. task_id (cyclic_store t))
             (filter (\<lambda>t. status (cyclic_store t) \<in> valid_statuses) [0, 1, 2]))"
    unfolding cyclic_todo by (rule cyclic_unique_ids)
  have c: "\<not> acyclic (dep_rel cyclic_store (filter (\<lambda>t. status (cyclic_store t) \<in> valid_statuses) [0, 1, 2]))"
    unfolding cyclic_todo by (rule cyclic_not_acyclic)
  from cycle_raises_before_any_write[OF u c, of 0] cyclic_unique_ids cyclic_todo cyclic_edges
    cyclic_not_acyclic
  show ?thesis by (intro conjI)
qed

lemma dependency_window_order:
  assumes s: "schedule_tasks_with_priority h tasks alpha = Some (Inr out, h')"
    and u: "distinct (map (\<lambda>t. task_id (h t)) (filter (\<lambda>t. status (h t) \<in> valid_statuses) tasks))"
    and dur: "\<forall>t\<in>set out. 0 \<le> duration (h t)"
    and t: "t \<in> set out" and d: "d \<in> set out"
    and e: "task_id (h d) \<in> set (dependencies (h t))"
  shows "\<exists>f s. finish_time (h' d) = Some f \<and> start_time (h' t) = Some s \<and> f \<le> s"
proof -
  let ?todo = "filter (\<lambda>t. status (h t) \<in> valid_statuses) tasks"
  note h' = schedule_Inr(1)[OF s]
  from schedule_Inr(3)[OF s] t d have in': "t \<in> set ?todo" "d \<in> set ?todo" by blast+
  from topological_sort_unique_cases[OF u, of alpha] schedule_Inr(2)[OF s]
  have m: "mset out = mset ?todo"
    and p: "\<forall>t\<in>set ?todo. \<forall>d\<in>set ?todo.
              task_id (h d) \<in> set (dependencies (h t)) \<longrightarrow> precedes out d t"
    by auto
  from u have "distinct ?todo" by (simp add: distinct_map)
  with m have dout: "distinct out" by (metis mset_eq_imp_distinct_iff)
  from p in' e have "precedes out d t" by blast
  then obtain i j where ij: "i < j" "j < length out" "out ! i = d" "out ! j = t"
    unfolding precedes_def by blast
  from foldr_assign_ordered[OF dur dout ij(1,2), of "Max (set (map (\<lambda>t. deadline (h t)) out))"]
  have le: "the (finish_time (h' d)) \<le> the (start_time (h' t))"
    unfolding h'[symmetric] ij(3,4) .
  from schedule_times(1)[OF s d] schedule_times(1)[OF s t]
  obtain f st where "finish_time (h' d) = Some f" "start_time (h' t) = Some st"
    unfolding timed_def by blast
  with le show ?thesis by simp
qed

text \<open>
  C3, as amended: when \<^verbatim>\<open>schedule_tasks_with_priority\<close> returns for an input whose plannable
  tasks have unique ids and whose returned tasks have no negative duration, the time values
  themselves respect every dependency between returned tasks: the dependency finishes no
  later than the dependent task starts.
\<close>

theorem dependency_finishes_before_dependent_starts:
  assumes "schedule_tasks_with_priority h tasks alpha = Some (Inr out, h')"
    and "distinct (map (\<lambda>t. task_id (h t)) (filter (\<lambda>t. status (h t) \<in> valid_statuses) tasks))"
    and "\<forall>t\<in>set out. 0 \<le> duration (h t)"
    and "t \<in> set out" and "d \<in> set out"
    and "task_id (h d) \<in> set (dependencies (h t))"
  shows "\<exists>f s. finish_time (h' d) = Some f \<and> start_time (h' t) = Some s \<and> f \<le> s"
  using assms by (rule dependency_window_order)

theorem dependency_finishes_before_dependent_starts_witness:
  "schedule_tasks_with_priority example_store example_tasks 0
     = Some (Inr [0, 1, 2, 3, 5], example_scheduled) \<and>
   dependencies (example_store 5) = [4, 1] \<and> task_id (example_store 3) = 4 \<and>
   finish_time (example_scheduled 3) = Some 60 \<and> start_time (example_scheduled 5) = Some 65 \<and>
   (\<exists>f s. finish_time (example_scheduled 3) = Some f \<and> start_time (example_scheduled 5) = Some s \<and> f \<le> s)"
proof -
  have u: "distinct (map (\<lambda>t. task_id (example_store t))
             (filter (\<lambda>t. status (example_store t) \<in> valid_statuses) example_tasks))"
    unfolding example_todo by (simp add: example_store_def)
  have n: "\<forall>t\<in>set [0, 1, 2, 3, 5]. 0 \<le> duration (example_store t)"
    by (simp add: example_store_def)
  have f: "dependencies (example_store 5) = [4, 1]" "task_id (example_store 3) = 4"
    by (simp_all add: example_store_def)
  then have e: "task_id (example_store 3) \<in> set (dependencies (example_store 5))" by simp
  have i: "(5::nat) \<in> set [0, 1, 2, 3, 5]" "(3::nat) \<in> set [0, 1, 2, 3, 5]" by simp_all
  note w = dependency_finishes_before_dependent_starts[OF example_schedule u n i e]
  have "finish_time (example_scheduled 3) = Some 60" "start_time (example_scheduled 5) = Some 65"
    by (simp_all add: example_scheduled_def example_store_def)
  with w f example_schedule show ?thesis by (intro conjI)
qed

text \<open>
  The claim C3 itself, that some input with unique ids, acyclic dependencies and no negative
  duration is scheduled with a dependency starting later than its dependent task, is false:
  there is no such input.
\<close>

theorem late_dependency_counterexample:
  "\<not> (\<exists>h tasks alpha out h' t d sd st.
        distinct (map (\<lambda>t. task_id (h t)) tasks) \<and>
        acyclic (dep_rel h tasks) \<and>
        (\<forall>t\<in>set tasks. 0 \<le> duration (h t)) \<and>
        schedule_tasks_with_priority h tasks alpha = Some (Inr out, h') \<and>
        t \<in> set out \<and> d \<in> set out \<and>
        task_id (h d) \<in> set (dependencies (h t)) \<and>
        start_time (h' d) = Some sd \<and> start_time (h' t) = Some st \<and> st < sd)"
proof
  assume "\<exists>h tasks alpha out h' t d sd st.
        distinct (map (\<lambda>t. task_id (h t)) tasks) \<and>
        acyclic (dep_rel h tasks) \<and>
        (\<forall>t\<in>set tasks. 0 \<le> duration (h t)) \<and>
        schedule_tasks_with_priority h tasks alpha = Some (Inr out, h') \<and>
        t \<in> set out \<and> d \<in> set out \<and>
        task_id (h d) \<in> set (dependencies (h t)) \<and>
        start_time (h' d) = Some sd \<and> start_time (h' t) = Some st \<and> st < sd"
  then obtain h tasks alpha out h' t d sd st where
    u: "distinct (map (\<lambda>t. task_id (h t)) tasks)"
    and dur: "\<forall>t\<in>set tasks. 0 \<le> duration (h t)"
    and s: "schedule_tasks_with_priority h tasks alpha = Some (Inr out, h')"
    and t: "t \<in> set out" and d: "d \<in> set out"
    and e: "task_id (h d) \<in> set (dependencies (h t))"
    and st: "start_time (h' d) = Some sd" "start_time (h' t) = Some st" "st < sd"
    by blast
  from u have u': "distinct (map (\<lambda>t. task_id (h t)) (filter (\<lambda>t. status (h t) \<in> valid_statuses) tasks))"
    by (rule distinct_map_filter)
  from schedule_Inr(3)[OF s] have sub: "set out \<subseteq> set tasks" by auto
  with dur have dur': "\<forall>t\<in>set out. 0 \<le> duration (h t)" by blast
  from dependency_window_order[OF s u' dur' t d e] st(2)
  obtain f where f: "finish_time (h' d) = Some f" "f \<le> st" by auto
  from schedule_times[OF s d] dur' d have "timed (h' d)" "0 \<le> duration (h' d)" by simp_all
  from timed_start_le_finish[OF this] st(1) f(1) have "sd \<le> f" by simp
  with f(2) st(3) show False by simp
qed

section \<open>The claim about the order of the pool\<close>

lemma run_iterations_rule:
  fixes P :: "ref list \<Rightarrow> (nat \<Rightarrow> int) \<Rightarrow> ref list \<Rightarrow> bool"
  assumes tm: "dom tm = K"
    and step: "\<And>cur rest I srt. P (cur # rest) I srt \<Longrightarrow>
        task_id (h cur) \<in> K \<and> set (G (task_id (h cur))) \<subseteq> K \<and>
        P (next_pool h alpha tm G cur rest I) (next_indeg h G cur I) (srt @ [cur])"
  shows "P z I srt \<Longrightarrow>
     run_iterations n (loop_body h alpha tm (dict_of K G)) (kstate K z I srt) = Some s \<Longrightarrow>
     \<exists>z' I' srt'. s = kstate K z' I' srt' \<and> P z' I' srt'"
proof (induction n arbitrary: z I srt)
  case 0
  then show ?case by auto
next
  case (Suc n)
  show ?case
  proof (cases z)
    case Nil
    with Suc.prems(2) show ?thesis by (simp add: kstate_def)
  next
    case (Cons cur rest)
    from step[of cur rest I srt] Suc.prems(1) Cons
    have k: "task_id (h cur) \<in> K" "set (G (task_id (h cur))) \<subseteq> K"
      and P': "P (next_pool h alpha tm G cur rest I) (next_indeg h G cur I) (srt @ [cur])"
      by auto
    note body = loop_body_dict[where h=h and cur=cur and G=G and alpha=alpha and rest=rest and I=I and srt=srt, OF tm k]
    have z: "zero_in_degree (kstate K (cur # rest) I srt) \<noteq> []" by (simp add: kstate_def)
    from Suc.prems(2) have "run_iterations n (loop_body h alpha tm (dict_of K G))
        (kstate K (next_pool h alpha tm G cur rest I) (next_indeg h G cur I) (srt @ [cur])) = Some s"
      unfolding Cons by (simp add: z body)
    from Suc.IH[OF P' this] show ?thesis .
  qed
qed

lemma reachable_states:
  assumes init: "initial_state h tasks alpha = Inr (graph, s0)"
    and run: "run_iterations n (loop_body h alpha (task_map_of h tasks) graph) s0 = Some s"
  shows "graph = dict_of (task_ids h tasks) (succs_of h tasks) \<and>
         (\<exists>z I srt. s = kstate (task_ids h tasks) z I srt \<and> gen_inv h tasks z I srt \<and>
            sorted (map (\<lambda>t. effective_deadline alpha (h t)) z))"
proof -
  let ?K = "task_ids h tasks" and ?G = "succs_of h tasks" and ?tm = "task_map_of h tasks"
  let ?ed = "\<lambda>t. effective_deadline alpha (h t)"
  let ?I0 = "indeg_of h ?K tasks"
  let ?z0 = "sort_key ?ed (filter (\<lambda>t. ?I0 (task_id (h t)) = 0) tasks)"
  let ?P = "\<lambda>z I srt. gen_inv h tasks z I srt \<and> sorted (map ?ed z)"
  from init initial_state_eq[of h tasks alpha]
  have g: "graph = dict_of ?K ?G" and s0: "s0 = kstate ?K ?z0 ?I0 []" by simp_all
  have G: "\<And>k. set (?G k) \<subseteq> ?K" by (rule set_succs_of)
  have step: "task_id (h cur) \<in> ?K \<and> set (?G (task_id (h cur))) \<subseteq> ?K \<and>
        ?P (next_pool h alpha ?tm ?G cur rest I) (next_indeg h ?G cur I) (srt @ [cur])"
    if P: "?P (cur # rest) I srt" for cur rest I srt
  proof -
    from P have gi: "gen_inv h tasks (cur # rest) I srt" by blast
    then have "cur \<in> set tasks" by (simp add: gen_inv_def)
    then have "task_id (h cur) \<in> ?K" by (simp add: task_ids_def)
    moreover note gen_inv_step(1)[where G="?G" and alpha=alpha, OF G gi] G[of "task_id (h cur)"]
    moreover have "sorted (map ?ed (next_pool h alpha ?tm ?G cur rest I))"
      unfolding next_pool_def by (rule sorted_sort_key)
    ultimately show ?thesis by blast
  qed
  have P0: "?P ?z0 ?I0 []"
    using gen_inv_init[of h tasks ?ed ?I0] sorted_sort_key[of ?ed] by blast
  from run_iterations_rule[where P="?P" and G="?G" and h=h and alpha=alpha,
      OF dom_task_map_of step P0 run[unfolded g s0]] g
  show ?thesis by blast
qed

lemma tie_order:
  "topological_sort_with_priority tie_store [0, 1, 2] 0 = Some (Inr [1, 2, 0])"
  by (simp add: eval_defs kahn_loop.simps tie_store_def)

lemma tie_second_step:
  "(case initial_state tie_store [0, 1, 2] 0 of
      Inl e \<Rightarrow> False
    | Inr (graph, s0) \<Rightarrow>
        (case run_iterations 1 (loop_body tie_store 0 (task_map_of tie_store [0, 1, 2]) graph) s0 of
           None \<Rightarrow> False
         | Some s \<Rightarrow> zero_in_degree s = [2, 0] \<and> sorted_list s = [1]))"
  by (simp add: eval_defs tie_store_def)

text \<open>
  C4, as amended: before every iteration the pool is sorted by ascending effective
  deadline, so the task that the iteration emits, the head of the pool, has the least
  effective deadline of the pool. The pool after the iteration is the stable sort of the
  rest of the pool followed by the tasks released in the iteration: among tasks with equal
  effective deadline those already waiting keep their order and stand before the newly
  released ones. In the first pool the tasks with equal effective deadline are in input
  order.
\<close>

theorem ready_pool_order:
  assumes "initial_state h tasks alpha = Inr (graph, s0)"
    and "run_iterations n (loop_body h alpha (task_map_of h tasks) graph) s0 = Some s"
    and "zero_in_degree s = cur # rest"
  shows "(\<forall>t\<in>set rest. effective_deadline alpha (h cur) \<le> effective_deadline alpha (h t)) \<and>
         (\<exists>s' released.
            loop_body h alpha (task_map_of h tasks) graph s = Inr s' \<and>
            sorted_list s' = sorted_list s @ [cur] \<and>
            zero_in_degree s' = sort_key (\<lambda>t. effective_deadline alpha (h t)) (rest @ released) \<and>
            sorted (map (\<lambda>t. effective_deadline alpha (h t)) (zero_in_degree s')) \<and>
            (\<forall>k. filter (\<lambda>t. effective_deadline alpha (h t) = k) (zero_in_degree s') =
                  filter (\<lambda>t. effective_deadline alpha (h t) = k) rest @
                  filter (\<lambda>t. effective_deadline alpha (h t) = k) released)) \<and>
         (\<forall>k. filter (\<lambda>t. effective_deadline alpha (h t) = k) (zero_in_degree s0) =
               filter (\<lambda>t. effective_deadline alpha (h t) = k)
                 (filter (\<lambda>t. in_degree s0 (task_id (h t)) = Some 0) tasks))"
proof -
  let ?K = "task_ids h tasks" and ?G = "succs_of h tasks" and ?tm = "task_map_of h tasks"
  let ?ed = "\<lambda>t. effective_deadline alpha (h t)"
  let ?I0 = "indeg_of h ?K tasks"
  from reachable_states[OF assms(1,2)] obtain z I srt where
    g: "graph = dict_of ?K ?G" and s: "s = kstate ?K z I srt"
    and gi: "gen_inv h tasks z I srt" and so: "sorted (map ?ed z)"
    by blast
  from assms(3) s have z: "z = cur # rest" by (simp add: kstate_def)
  from so z have 1: "\<forall>t\<in>set rest. ?ed cur \<le> ?ed t" by simp
  from gi z have "cur \<in> set tasks" by (simp add: gen_inv_def)
  then have k: "task_id (h cur) \<in> ?K" by (simp add: task_ids_def)
  have G: "set (?G (task_id (h cur))) \<subseteq> ?K" by (rule set_succs_of)
  define released where "released = map (\<lambda>n. the (?tm n)) (newly_ready I (?G (task_id (h cur))))"
  define s' where "s' = kstate ?K (next_pool h alpha ?tm ?G cur rest I) (next_indeg h ?G cur I) (srt @ [cur])"
  have body: "loop_body h alpha ?tm graph s = Inr s'"
    unfolding g s z s'_def
    by (rule loop_body_dict[where h=h and cur=cur and G="?G", OF dom_task_map_of k G])
  have pool: "zero_in_degree s' = sort_key ?ed (rest @ released)"
    by (simp add: s'_def kstate_def next_pool_def released_def)
  have srt: "sorted_list s' = sorted_list s @ [cur]"
    by (simp add: s'_def s kstate_def)
  have sorted': "sorted (map ?ed (zero_in_degree s'))" unfolding pool by (rule sorted_sort_key)
  have stable: "filter (\<lambda>t. ?ed t = k) (zero_in_degree s') =
                filter (\<lambda>t. ?ed t = k) rest @ filter (\<lambda>t. ?ed t = k) released" for k
    unfolding pool sort_key_stable by simp
  from body srt pool sorted' stable
  have 2: "\<exists>s' released.
            loop_body h alpha ?tm graph s = Inr s' \<and>
            sorted_list s' = sorted_list s @ [cur] \<and>
            zero_in_degree s' = sort_key ?ed (rest @ released) \<and>
            sorted (map ?ed (zero_in_degree s')) \<and>
            (\<forall>k. filter (\<lambda>t. ?ed t = k) (zero_in_degree s') =
                  filter (\<lambda>t. ?ed t = k) rest @ filter (\<lambda>t. ?ed t = k) released)"
    by blast
  from assms(1) initial_state_eq[of h tasks alpha]
  have s0: "s0 = kstate ?K (sort_key ?ed (filter (\<lambda>t. ?I0 (task_id (h t)) = 0) tasks)) ?I0 []"
    by simp
  have "filter (\<lambda>t. in_degree s0 (task_id (h t)) = Some 0) tasks
        = filter (\<lambda>t. ?I0 (task_id (h t)) = 0) tasks"
    by (rule filter_cong) (simp_all add: s0 kstate_def dict_of_def task_ids_def)
  then have 3: "filter (\<lambda>t. ?ed t = k) (zero_in_degree s0) =
               filter (\<lambda>t. ?ed t = k) (filter (\<lambda>t. in_degree s0 (task_id (h t)) = Some 0) tasks)" for k
    by (simp add: s0 kstate_def sort_key_stable)
  from 1 2 3 show ?thesis by blast
qed

theorem ready_pool_order_witness:
  "\<exists>graph s0 s s'.
     initial_state tie_store [0, 1, 2] 0 = Inr (graph, s0) \<and>
     run_iterations 1 (loop_body tie_store 0 (task_map_of tie_store [0, 1, 2]) graph) s0 = Some s \<and>
     zero_in_degree s = [2, 0] \<and>
     effective_deadline 0 (tie_store 2) \<le> effective_deadline 0 (tie_store 0) \<and>
     loop_body tie_store 0 (task_map_of tie_store [0, 1, 2]) graph s = Inr s' \<and>
     sorted_list s' = sorted_list s @ [2] \<and>
     sorted (map (\<lambda>t. effective_deadline 0 (tie_store t)) (zero_in_degree s'))"
proof -
  from initial_state_eq[of tie_store "[0, 1, 2]" 0] obtain graph s0 where
    i: "initial_state tie_store [0, 1, 2] 0 = Inr (graph, s0)"
    by blast
  from tie_second_step have c: "case run_iterations 1
        (loop_body tie_store 0 (task_map_of tie_store [0, 1, 2]) graph) s0 of
      None \<Rightarrow> False | Some s \<Rightarrow> zero_in_degree s = [2, 0] \<and> sorted_list s = [1]"
    by (simp only: i sum.case prod.case)
  have "\<exists>s. run_iterations 1 (loop_body tie_store 0 (task_map_of tie_store [0, 1, 2]) graph) s0 = Some s \<and>
          zero_in_degree s = [2, 0]"
  proof (cases "run_iterations 1 (loop_body tie_store 0 (task_map_of tie_store [0, 1, 2]) graph) s0")
    case None
    from c[unfolded None option.case] show ?thesis by (rule FalseE)
  next
    case (Some a)
    from c[unfolded Some option.case] Some show ?thesis by blast
  qed
  then obtain s where
    r: "run_iterations 1 (loop_body tie_store 0 (task_map_of tie_store [0, 1, 2]) graph) s0 = Some s"
    and z: "zero_in_degree s = [2, 0]"
    by blast
  from ready_pool_order[OF i r z] obtain s' where
    a: "\<forall>t\<in>set [0]. effective_deadline 0 (tie_store 2) \<le> effective_deadline 0 (tie_store t)"
    and b: "loop_body tie_store 0 (task_map_of tie_store [0, 1, 2]) graph s = Inr s'"
    "sorted_list s' = sorted_list s @ [2]"
    "sorted (map (\<lambda>t. effective_deadline 0 (tie_store t)) (zero_in_degree s'))"
    by blast
  from a have "effective_deadline 0 (tie_store 2) \<le> effective_deadline 0 (tie_store 0)" by simp
  with i r z b show ?thesis by blast
qed

text \<open>
  The claim C4 itself fails where it says that ties go by input order. In the list of
  \<open>tie_store\<close> the first task (reference 0) and the third (reference 2) have the same
  effective deadline. After the first iteration has emitted the second task, both are in
  the pool, the third before the first, and the third is emitted before the first, although
  the first is earlier in the input list.
\<close>

theorem tie_not_by_input_order_counterexample:
  "effective_deadline 0 (tie_store 0) = effective_deadline 0 (tie_store 2) \<and>
   (case initial_state tie_store [0, 1, 2] 0 of
      Inl e \<Rightarrow> False
    | Inr (graph, s0) \<Rightarrow>
        (case run_iterations 1 (loop_body tie_store 0 (task_map_of tie_store [0, 1, 2]) graph) s0 of
           None \<Rightarrow> False
         | Some s \<Rightarrow> zero_in_degree s = [2, 0] \<and> sorted_list s = [1])) \<and>
   topological_sort_with_priority tie_store [0, 1, 2] 0 = Some (Inr [1, 2, 0])"
proof -
  have "effective_deadline 0 (tie_store 0) = effective_deadline 0 (tie_store 2)"
    by (simp add: effective_deadline_def tie_store_def)
  with tie_second_step tie_order show ?thesis by (intro conjI)
qed

end
